theory Spec2Isabelle
  imports Main "HOL-Library.Sublist"
begin

section \<open>Values of the program\<close>

text \<open>
  The program is TypeScript; its numbers are IEEE doubles. An identity is a number, and
  the program compares identities, takes their greatest and adds one. The model has the
  numbers that are integers, the two infinities and \<open>NaN\<close>: \<open>Fin n\<close> is the
  double of value \<open>n\<close> (every integer up to \<open>2 ^ 53\<close> in size is one, beyond that
  only the multiples of a power of two are). Zero has one sign here, which no operation
  below tells apart. Numbers with a fractional part are left out: the spec's identities
  are integers.
\<close>

datatype number = Fin int | PosInf | NegInf | NaN

definition two53 :: int where
  "two53 = 9007199254740992"

text \<open>\<open>a <= b\<close> and \<open>a < b\<close>: false as soon as one side is \<open>NaN\<close>.\<close>

fun js_le :: "number \<Rightarrow> number \<Rightarrow> bool" where
  "js_le NaN b = False"
| "js_le a NaN = False"
| "js_le (Fin a) (Fin b) = (a \<le> b)"
| "js_le NegInf b = True"
| "js_le a PosInf = True"
| "js_le a b = False"

fun js_lt :: "number \<Rightarrow> number \<Rightarrow> bool" where
  "js_lt NaN b = False"
| "js_lt a NaN = False"
| "js_lt (Fin a) (Fin b) = (a < b)"
| "js_lt PosInf b = False"
| "js_lt a NegInf = False"
| "js_lt a b = True"

text \<open>
  \<open>a === b\<close> on numbers: \<open>NaN\<close> equals nothing, not even itself. (A \<open>Set\<close>
  compares with SameValueZero, under which \<open>NaN\<close> is found again: that is the
  equality of the logic.)
\<close>

definition strict_eq :: "number \<Rightarrow> number \<Rightarrow> bool" where
  "strict_eq a b = (a \<noteq> NaN \<and> b \<noteq> NaN \<and> a = b)"

text \<open>\<open>Math.max(a, b)\<close>: \<open>NaN\<close> as soon as one argument is.\<close>

definition js_max :: "number \<Rightarrow> number \<Rightarrow> number" where
  "js_max a b = (if a = NaN \<or> b = NaN then NaN else if js_le a b then b else a)"

text \<open>
  \<open>n + 1\<close> on a double of integer value \<open>n\<close>, rounded to the nearest double, a
  tie going to the even significand. Up to \<open>2 ^ 53\<close> in size the sum is a double.
  Between \<open>2 ^ 53\<close> and \<open>2 ^ 54\<close> the doubles are the even integers, and the sum
  lies halfway between \<open>n\<close> and \<open>n + 2\<close>: the one whose half is even wins. From
  \<open>2 ^ 54\<close> on the doubles are 4 apart or more and the sum rounds back to \<open>n\<close>.
\<close>

definition round_add1 :: "int \<Rightarrow> int" where
  "round_add1 n =
     (if - two53 \<le> n \<and> n < two53 then n + 1
      else if - (2 * two53) < n \<and> n < 2 * two53 then (if even (n div 2) then n else n + 2)
      else n)"

fun js_add1 :: "number \<Rightarrow> number" where
  "js_add1 (Fin n) = Fin (round_add1 n)"
| "js_add1 PosInf = PosInf"
| "js_add1 NegInf = NegInf"
| "js_add1 NaN = NaN"

text \<open>
  A \<open>Date\<close> holds a time value in milliseconds, or no time value at all (the invalid
  date that \<open>new Date(s)\<close> yields for a string it cannot read). Comparing two dates
  compares their time values; every comparison with an invalid date is false.
\<close>

datatype date = Date int | InvalidDate

fun date_le :: "date \<Rightarrow> date \<Rightarrow> bool" where
  "date_le (Date a) (Date b) = (a \<le> b)"
| "date_le _ _ = False"

text \<open>Thrown errors, one constructor for each \<open>throw\<close> of the source.\<close>

datatype error =
    InvalidID number
  | DuplicateID number
  | InvalidOperation string
  | FailedResultValue

text \<open>Truthiness of an optional string: \<open>undefined\<close> and the empty string are falsy.\<close>

fun truthy :: "string option \<Rightarrow> bool" where
  "truthy None = False"
| "truthy (Some s) = (s \<noteq> [])"

section \<open>Result\<close>

record 'a result =
  isSuccess :: bool
  isFailure :: bool
  error :: "string option"
  r_value :: "'a option"

text \<open>The private constructor of \<open>Result\<close>, with its two guards.\<close>

definition Result_new :: "bool \<Rightarrow> string option \<Rightarrow> 'a option \<Rightarrow> error + 'a result" where
  "Result_new success err v =
     (if success \<and> truthy err then
        Inl (InvalidOperation ''A result cannot be successful and contain an error'')
      else if \<not> success \<and> \<not> truthy err then
        Inl (InvalidOperation ''A failing result needs to contain an error message'')
      else
        Inr \<lparr>isSuccess = success, isFailure = \<not> success, error = err, r_value = v\<rparr>)"

definition getValue :: "'a result \<Rightarrow> error + 'a option" where
  "getValue r = (if \<not> isSuccess r then Inl FailedResultValue else Inr (r_value r))"

definition ok :: "'a option \<Rightarrow> error + 'a result" where
  "ok v = Result_new True None v"

definition fail :: "string \<Rightarrow> error + 'a result" where
  "fail e = Result_new False (Some e) None"

fun combine :: "'a result list \<Rightarrow> error + 'a result" where
  "combine [] = ok None"
| "combine (r # rs) = (if isFailure r then Inr r else combine rs)"

section \<open>Repository\<close>

text \<open>
  \<open>Repository<T extends { id: number }>\<close>: the items are records that extend
  \<open>entity\<close>. An object spread \<open>{ ...item }\<close> makes a new object with the same
  fields; on values it is the identity, written \<open>copy\<close> so that every spread of the
  source shows in the model. (Object identity and aliasing are the subject of the section
  on the heap.)
\<close>

record entity =
  item_id :: number

record 'a repository =
  items :: "'a list"
  nextId :: number

definition copy :: "'a \<Rightarrow> 'a" where
  "copy item = item"

text \<open>
  The callback of \<open>initialItems.map\<close> in the constructor, with the set of identities
  seen so far; the first offending item throws.
\<close>

fun load_items :: "number set \<Rightarrow> 'a entity_scheme list \<Rightarrow> error + 'a entity_scheme list" where
  "load_items seenIds [] = Inr []"
| "load_items seenIds (item # rest) =
     (if js_le (item_id item) (Fin 0) then Inl (InvalidID (item_id item))
      else if item_id item \<in> seenIds then Inl (DuplicateID (item_id item))
      else (case load_items (insert (item_id item) seenIds) rest of
              Inl e \<Rightarrow> Inl e
            | Inr loaded \<Rightarrow> Inr (copy item # loaded)))"

text \<open>\<open>Math.max(0, ...ns)\<close>.\<close>

definition Math_max0 :: "number list \<Rightarrow> number" where
  "Math_max0 ns = fold (\<lambda>n acc. js_max acc n) ns (Fin 0)"

definition Repository_new :: "'a entity_scheme list \<Rightarrow> error + 'a entity_scheme repository" where
  "Repository_new initialItems =
     (case load_items {} initialItems of
        Inl e \<Rightarrow> Inl e
      | Inr loaded \<Rightarrow>
          Inr \<lparr>items = loaded,
               nextId = (if length initialItems > 0
                         then js_add1 (Math_max0 (map item_id initialItems))
                         else Fin 1)\<rparr>)"

definition getAll :: "'a repository \<Rightarrow> 'a list" where
  "getAll repo = map copy (items repo)"

definition getById :: "number \<Rightarrow> 'a entity_scheme repository \<Rightarrow> 'a entity_scheme option" where
  "getById rid repo =
     (case find (\<lambda>item. strict_eq (item_id item) rid) (items repo) of
        None \<Rightarrow> None
      | Some item \<Rightarrow> Some (copy item))"

text \<open>
  \<open>create\<close> takes the item without its identity; the argument's \<open>item_id\<close> is
  overwritten by the spread \<open>{ ...item, id: this.nextId++ }\<close>. The increment is
  the rounded sum.
\<close>

definition create ::
  "'a entity_scheme \<Rightarrow> 'a entity_scheme repository \<Rightarrow> 'a entity_scheme \<times> 'a entity_scheme repository" where
  "create item repo =
     (let newItem = item\<lparr>item_id := nextId repo\<rparr>
      in (copy newItem, repo\<lparr>items := items repo @ [newItem], nextId := js_add1 (nextId repo)\<rparr>))"

fun findIndex :: "('a \<Rightarrow> bool) \<Rightarrow> 'a list \<Rightarrow> nat option" where
  "findIndex P [] = None"
| "findIndex P (x # xs) =
     (if P x then Some 0 else (case findIndex P xs of None \<Rightarrow> None | Some i \<Rightarrow> Some (Suc i)))"

text \<open>
  \<open>update\<close>: the spread \<open>{ ...updatedItems[index], ...updates }\<close> is the parameter
  \<open>spread\<close>, given for the item type below. \<open>None\<close> is the \<open>undefined\<close> returned
  for a missing identity.
\<close>

definition update ::
  "('a entity_scheme \<Rightarrow> 'u \<Rightarrow> 'a entity_scheme) \<Rightarrow> number \<Rightarrow> 'u \<Rightarrow> 'a entity_scheme repository
     \<Rightarrow> 'a entity_scheme option \<times> 'a entity_scheme repository"
  where
  "update spread rid updates repo =
     (case findIndex (\<lambda>item. strict_eq (item_id item) rid) (items repo) of
        None \<Rightarrow> (None, repo)
      | Some index \<Rightarrow>
          (let updatedItems = (items repo)[index := spread (items repo ! index) updates]
           in (Some (copy (updatedItems ! index)), repo\<lparr>items := updatedItems\<rparr>)))"

definition delete :: "number \<Rightarrow> 'a entity_scheme repository \<Rightarrow> bool \<times> 'a entity_scheme repository" where
  "delete rid repo =
     (let initialLength = length (items repo);
          repo' = repo\<lparr>items := filter (\<lambda>item. \<not> strict_eq (item_id item) rid) (items repo)\<rparr>
      in (length (items repo') < initialLength, repo'))"

definition exists_id :: "number \<Rightarrow> 'a entity_scheme repository \<Rightarrow> bool" where
  "exists_id rid repo = list_ex (\<lambda>item. strict_eq (item_id item) rid) (items repo)"

definition count :: "'a repository \<Rightarrow> nat" where
  "count repo = length (items repo)"

definition query :: "('a \<Rightarrow> bool) \<Rightarrow> 'a repository \<Rightarrow> 'a list" where
  "query predicate repo = map copy (filter predicate (items repo))"

section \<open>The task application state\<close>

datatype todo_status = Pending | InProgress | Completed

datatype todo_priority = Low | Medium | High

record todo = entity +
  todo_text :: string
  status :: todo_status
  createdAt :: date
  updatedAt :: date
  dueDate :: "date option"
  priority :: todo_priority

text \<open>
  \<open>Partial<Omit<Todo, 'id'>>\<close>: for each field, \<open>None\<close> when the key is absent. The
  optional field \<open>dueDate\<close> can be present with the value \<open>undefined\<close>, which is
  \<open>Some None\<close>. The identity is not a key of the update: the type leaves it out, and
  \<open>updateTodo\<close> never sets it.
\<close>

record partial_todo =
  p_text :: "string option"
  p_status :: "todo_status option"
  p_createdAt :: "date option"
  p_updatedAt :: "date option"
  p_dueDate :: "date option option"
  p_priority :: "todo_priority option"

text \<open>\<open>{ ...old, ...updates }\<close>: every key present in \<open>updates\<close> wins.\<close>

definition spread_todo :: "todo \<Rightarrow> partial_todo \<Rightarrow> todo" where
  "spread_todo old updates =
     old\<lparr>todo_text := (case p_text updates of None \<Rightarrow> todo_text old | Some v \<Rightarrow> v),
         status := (case p_status updates of None \<Rightarrow> status old | Some v \<Rightarrow> v),
         createdAt := (case p_createdAt updates of None \<Rightarrow> createdAt old | Some v \<Rightarrow> v),
         updatedAt := (case p_updatedAt updates of None \<Rightarrow> updatedAt old | Some v \<Rightarrow> v),
         dueDate := (case p_dueDate updates of None \<Rightarrow> dueDate old | Some v \<Rightarrow> v),
         priority := (case p_priority updates of None \<Rightarrow> priority old | Some v \<Rightarrow> v)\<rparr>"

text \<open>
  \<open>UpdateTodoDto\<close>. A field whose key is absent and a field set to \<open>undefined\<close>
  pass the test \<open>!== undefined\<close> alike and are both \<open>None\<close>; for \<open>dueDate\<close> the
  test is \<open>'dueDate' in updates\<close>, which tells them apart.
\<close>

datatype due_update =
    KeyAbsent
  | IsUndefined
  | IsNull
  | IsDate date
  | IsString string

record update_dto =
  u_text :: "string option"
  u_status :: "todo_status option"
  u_priority :: "todo_priority option"
  u_dueDate :: due_update

text \<open>The argument of \<open>addTodo\<close>: \<open>Omit<Todo, 'id' | 'createdAt' | 'updatedAt'>\<close>.\<close>

record new_todo =
  n_text :: string
  n_status :: todo_status
  n_dueDate :: "date option"
  n_priority :: todo_priority

datatype todo_filter = All | ByStatus todo_status

record todo_app =
  todoRepository :: "todo repository"
  filter_sel :: todo_filter

definition TodoAppState_new :: "error + todo_app" where
  "TodoAppState_new =
     (case Repository_new [] of
        Inl e \<Rightarrow> Inl e
      | Inr repo \<Rightarrow> Inr \<lparr>todoRepository = repo, filter_sel = All\<rparr>)"

definition set_filter :: "todo_filter \<Rightarrow> todo_app \<Rightarrow> todo_app" where
  "set_filter v st = st\<lparr>filter_sel := v\<rparr>"

text \<open>
  The getter \<open>todos\<close>. The source reads \<open>getAll() || []\<close>; an array is always
  truthy, so the alternative is never taken.
\<close>

definition todos :: "todo_app \<Rightarrow> todo list" where
  "todos st =
     (let allTodos = getAll (todoRepository st)
      in if filter_sel st = All then allTodos
         else filter (\<lambda>todo. ByStatus (status todo) = filter_sel st) allTodos)"

text \<open>
  \<open>new Date()\<close> reads the clock; the reading is the argument \<open>now\<close>. The
  \<open>try\<close>/\<open>catch\<close> of \<open>addTodo\<close> turns an error thrown inside into
  \<open>Result.fail\<close>. A call returns what it returns (or throws) and the state after it.
\<close>

definition addTodo :: "int \<Rightarrow> new_todo \<Rightarrow> todo_app \<Rightarrow> (error + todo result) \<times> todo_app" where
  "addTodo now todo st =
     (let newTodo = \<lparr>item_id = Fin 0, todo_text = n_text todo, status = n_status todo,
                     createdAt = Date now, updatedAt = Date now,
                     dueDate = n_dueDate todo, priority = n_priority todo\<rparr>;
          (createdTodo, repo') = create newTodo (todoRepository st);
          st' = st\<lparr>todoRepository := repo'\<rparr>
      in (case ok (Some createdTodo) of
            Inr r \<Rightarrow> (Inr r, st')
          | Inl e \<Rightarrow> (fail ''Failed to add todo'', st')))"

text \<open>
  \<open>updateTodo\<close>; \<open>parseDate\<close> is \<open>new Date(s)\<close> on a string, a function of the
  platform. \<open>updateData\<close> is the local object of that name, built from the update
  and from \<open>todo\<close>, the copy that \<open>getById\<close> returned.
\<close>

definition updateData :: "(string \<Rightarrow> date) \<Rightarrow> int \<Rightarrow> update_dto \<Rightarrow> todo \<Rightarrow> partial_todo" where
  "updateData parseDate now updates todo =
     \<lparr>p_text = u_text updates,
      p_status = u_status updates,
      p_createdAt = None,
      p_updatedAt = Some (Date now),
      p_dueDate =
        (case u_dueDate updates of
           KeyAbsent \<Rightarrow> None
         | IsNull \<Rightarrow> Some None
         | IsDate d \<Rightarrow> Some (Some d)
         | IsString s \<Rightarrow> (if s \<noteq> [] then Some (Some (parseDate s)) else Some (dueDate todo))
         | IsUndefined \<Rightarrow> Some (dueDate todo)),
      p_priority = u_priority updates\<rparr>"

definition updateTodo ::
  "(string \<Rightarrow> date) \<Rightarrow> int \<Rightarrow> number \<Rightarrow> update_dto \<Rightarrow> todo_app \<Rightarrow> (error + todo result) \<times> todo_app"
  where
  "updateTodo parseDate now rid updates st =
     (case getById rid (todoRepository st) of
        None \<Rightarrow> (fail ''Todo not found'', st)
      | Some todo \<Rightarrow>
          (let (updatedTodo, repo') =
                 update spread_todo rid (updateData parseDate now updates todo) (todoRepository st);
               st' = st\<lparr>todoRepository := repo'\<rparr>
           in (case updatedTodo of
                 Some t \<Rightarrow> (ok (Some t), st')
               | None \<Rightarrow> (fail ''Failed to update todo'', st'))))"

definition deleteTodo :: "number \<Rightarrow> todo_app \<Rightarrow> (error + bool result) \<times> todo_app" where
  "deleteTodo rid st =
     (let (success, repo') = delete rid (todoRepository st);
          st' = st\<lparr>todoRepository := repo'\<rparr>
      in if success then (ok (Some True), st') else (fail ''Todo not found'', st'))"

subsection \<open>Sequences of operations\<close>

text \<open>
  Every store is built by the constructor and then changed by \<open>create\<close>,
  \<open>update\<close> and \<open>delete\<close> only; the reads leave it as it is.
\<close>

datatype repo_op = Create todo | Update number partial_todo | Delete number

fun apply_op :: "repo_op \<Rightarrow> todo repository \<Rightarrow> todo repository" where
  "apply_op (Create item) repo = snd (create item repo)"
| "apply_op (Update rid updates) repo = snd (update spread_todo rid updates repo)"
| "apply_op (Delete rid) repo = snd (delete rid repo)"

definition run_ops :: "repo_op list \<Rightarrow> todo repository \<Rightarrow> todo repository" where
  "run_ops ops repo = fold apply_op ops repo"

text \<open>
  The calls into the application state, each with the clock reading it makes (if it
  makes one).
\<close>

datatype app_op =
    AddTodo int new_todo
  | UpdateTodo int number update_dto
  | DeleteTodo number
  | SetFilter todo_filter

fun app_step :: "(string \<Rightarrow> date) \<Rightarrow> app_op \<Rightarrow> todo_app \<Rightarrow> todo_app" where
  "app_step parseDate (AddTodo now todo) st = snd (addTodo now todo st)"
| "app_step parseDate (UpdateTodo now rid updates) st = snd (updateTodo parseDate now rid updates st)"
| "app_step parseDate (DeleteTodo rid) st = snd (deleteTodo rid st)"
| "app_step parseDate (SetFilter v) st = set_filter v st"

definition app_run :: "(string \<Rightarrow> date) \<Rightarrow> app_op list \<Rightarrow> todo_app \<Rightarrow> todo_app" where
  "app_run parseDate ops st = fold (app_step parseDate) ops st"

fun clock_readings :: "app_op list \<Rightarrow> int list" where
  "clock_readings [] = []"
| "clock_readings (AddTodo now todo # ops) = now # clock_readings ops"
| "clock_readings (UpdateTodo now rid updates # ops) = now # clock_readings ops"
| "clock_readings (op # ops) = clock_readings ops"

section \<open>Object identity: the store over a heap\<close>

text \<open>
  The sections above treat items as values. What a caller can do to the store through
  an object it was handed depends on which objects are shared, so here the objects live
  in a heap. An object is a cell holding its fields; a field holds a primitive value or
  a reference to a \<open>Date\<close> object, which is a cell holding a time value that
  \<open>setTime\<close> overwrites. Arrays are never shared by the repository (every method
  builds a new one) and stay values.
\<close>

type_synonym addr = nat

datatype prim = PNum number | PStr string | PBool bool | PUndefined | PNull

datatype val = Prim prim | DateRef addr

type_synonym fields = "string \<rightharpoonup> val"

record world =
  objs :: "addr \<rightharpoonup> fields"
  dates :: "addr \<rightharpoonup> int"
  next_addr :: addr
  h_items :: "addr list"
  h_nextId :: number

text \<open>The store \<open>new Repository([])\<close> in an empty heap.\<close>

definition world0 :: world where
  "world0 = \<lparr>objs = Map.empty, dates = Map.empty, next_addr = 0, h_items = [], h_nextId = Fin 1\<rparr>"

definition alloc_obj :: "fields \<Rightarrow> world \<Rightarrow> addr \<times> world" where
  "alloc_obj f w =
     (next_addr w, w\<lparr>objs := (objs w)(next_addr w \<mapsto> f), next_addr := Suc (next_addr w)\<rparr>)"

text \<open>\<open>new Date(t)\<close>.\<close>

definition new_Date :: "int \<Rightarrow> world \<Rightarrow> addr \<times> world" where
  "new_Date t w =
     (next_addr w, w\<lparr>dates := (dates w)(next_addr w \<mapsto> t), next_addr := Suc (next_addr w)\<rparr>)"

definition fields_of :: "world \<Rightarrow> addr \<Rightarrow> fields" where
  "fields_of w a = (case objs w a of None \<Rightarrow> Map.empty | Some f \<Rightarrow> f)"

text \<open>\<open>item.id === rid\<close> on the object at \<open>a\<close>.\<close>

definition has_id :: "world \<Rightarrow> number \<Rightarrow> addr \<Rightarrow> bool" where
  "has_id w rid a =
     (case fields_of w a ''id'' of
        Some (Prim (PNum n)) \<Rightarrow> strict_eq n rid
      | _ \<Rightarrow> False)"

text \<open>\<open>xs.map(item => ({ ...item }))\<close>: one new object for each item, in order.\<close>

fun copy_items :: "addr list \<Rightarrow> world \<Rightarrow> addr list \<times> world" where
  "copy_items [] w = ([], w)"
| "copy_items (a # as) w =
     (let (c, w1) = alloc_obj (fields_of w a) w;
          (cs, w2) = copy_items as w1
      in (c # cs, w2))"

definition getAll_h :: "world \<Rightarrow> addr list \<times> world" where
  "getAll_h w = copy_items (h_items w) w"

definition getById_h :: "number \<Rightarrow> world \<Rightarrow> addr option \<times> world" where
  "getById_h rid w =
     (case find (has_id w rid) (h_items w) of
        None \<Rightarrow> (None, w)
      | Some item \<Rightarrow> (let (c, w1) = alloc_obj (fields_of w item) w in (Some c, w1)))"

definition create_h :: "fields \<Rightarrow> world \<Rightarrow> addr \<times> world" where
  "create_h item w =
     (let (newItem, w1) = alloc_obj (item(''id'' \<mapsto> Prim (PNum (h_nextId w)))) w;
          w2 = w1\<lparr>h_items := h_items w1 @ [newItem], h_nextId := js_add1 (h_nextId w1)\<rparr>
      in alloc_obj (fields_of w2 newItem) w2)"

definition update_h :: "number \<Rightarrow> fields \<Rightarrow> world \<Rightarrow> addr option \<times> world" where
  "update_h rid updates w =
     (case findIndex (has_id w rid) (h_items w) of
        None \<Rightarrow> (None, w)
      | Some index \<Rightarrow>
          (let (merged, w1) = alloc_obj (fields_of w (h_items w ! index) ++ updates) w;
               w2 = w1\<lparr>h_items := (h_items w1)[index := merged]\<rparr>;
               (c, w3) = alloc_obj (fields_of w2 merged) w2
           in (Some c, w3)))"

definition delete_h :: "number \<Rightarrow> world \<Rightarrow> bool \<times> world" where
  "delete_h rid w =
     (let initialLength = length (h_items w);
          w1 = w\<lparr>h_items := filter (\<lambda>a. \<not> has_id w rid a) (h_items w)\<rparr>
      in (length (h_items w1) < initialLength, w1))"

text \<open>
  What a caller can do to an object it holds: assign a field (\<open>o.k = v\<close>), and call
  \<open>setTime\<close> on a date, reached directly or through a field (\<open>o.k.setTime(t)\<close>).
\<close>

definition obj_set :: "addr \<Rightarrow> string \<Rightarrow> val \<Rightarrow> world \<Rightarrow> world" where
  "obj_set a k v w =
     (case objs w a of
        None \<Rightarrow> w
      | Some f \<Rightarrow> w\<lparr>objs := (objs w)(a \<mapsto> f(k \<mapsto> v))\<rparr>)"

definition date_setTime :: "addr \<Rightarrow> int \<Rightarrow> world \<Rightarrow> world" where
  "date_setTime d t w =
     (case dates w d of
        None \<Rightarrow> w
      | Some old \<Rightarrow> w\<lparr>dates := (dates w)(d \<mapsto> t)\<rparr>)"

definition field_setTime :: "addr \<Rightarrow> string \<Rightarrow> int \<Rightarrow> world \<Rightarrow> world" where
  "field_setTime a k t w =
     (case fields_of w a k of
        Some (DateRef d) \<Rightarrow> date_setTime d t w
      | _ \<Rightarrow> w)"

text \<open>A run: calls of the repository's methods and the caller's own actions, in any order.\<close>

datatype h_op =
    HCreate fields
  | HUpdate number fields
  | HDelete number
  | HGetAll
  | HGetById number
  | HNewDate int
  | HObjSet addr string val
  | HSetTime addr int

fun h_step :: "h_op \<Rightarrow> world \<Rightarrow> world" where
  "h_step (HCreate item) w = snd (create_h item w)"
| "h_step (HUpdate rid updates) w = snd (update_h rid updates w)"
| "h_step (HDelete rid) w = snd (delete_h rid w)"
| "h_step HGetAll w = snd (getAll_h w)"
| "h_step (HGetById rid) w = snd (getById_h rid w)"
| "h_step (HNewDate t) w = snd (new_Date t w)"
| "h_step (HObjSet a k v) w = obj_set a k v w"
| "h_step (HSetTime d t) w = date_setTime d t w"

definition run_h :: "h_op list \<Rightarrow> world \<Rightarrow> world" where
  "run_h ops w = fold h_step ops w"

text \<open>
  What a caller sees when it reads an object: each field, with a date read through to
  its time value.
\<close>

datatype seen = SPrim prim | SDate "int option"

definition resolve :: "world \<Rightarrow> val \<Rightarrow> seen" where
  "resolve w v = (case v of Prim p \<Rightarrow> SPrim p | DateRef d \<Rightarrow> SDate (dates w d))"

definition deep :: "world \<Rightarrow> addr \<Rightarrow> string \<Rightarrow> seen option" where
  "deep w a k = map_option (resolve w) (fields_of w a k)"

definition seen_getAll :: "world \<Rightarrow> (string \<Rightarrow> seen option) list" where
  "seen_getAll w = (let (cs, w1) = getAll_h w in map (deep w1) cs)"

definition seen_getById :: "number \<Rightarrow> world \<Rightarrow> (string \<Rightarrow> seen option) option" where
  "seen_getById rid w = (let (c, w1) = getById_h rid w in map_option (deep w1) c)"

text \<open>The store's own objects are allocated, and no more than that.\<close>

definition store_wf :: "world \<Rightarrow> bool" where
  "store_wf w = list_all (\<lambda>a. a < next_addr w) (h_items w)"

section \<open>Invariants and sample data\<close>

definition ids :: "'a entity_scheme repository \<Rightarrow> number list" where
  "ids repo = map item_id (items repo)"

text \<open>
  A number below \<open>2 ^ 53\<close>, where adding one is exact; a positive integer below a
  bound; the integer of a number.
\<close>

fun below_limit :: "number \<Rightarrow> bool" where
  "below_limit (Fin n) = (n < two53)"
| "below_limit x = False"

fun pos_below :: "int \<Rightarrow> number \<Rightarrow> bool" where
  "pos_below m (Fin k) = (0 < k \<and> k < m)"
| "pos_below m x = False"

fun the_int :: "number \<Rightarrow> int" where
  "the_int (Fin n) = n"
| "the_int x = 0"

text \<open>
  The invariant of a store that has not reached the limit: identities are unique positive
  integers, and the next identity is an integer above all of them, at most \<open>2 ^ 53\<close>.
\<close>

definition repo_inv :: "'a entity_scheme repository \<Rightarrow> bool" where
  "repo_inv repo \<longleftrightarrow>
     distinct (ids repo) \<and>
     (case nextId repo of
        Fin m \<Rightarrow> 1 \<le> m \<and> m \<le> two53 \<and> list_all (pos_below m) (ids repo)
      | _ \<Rightarrow> False)"

text \<open>
  Every stored task carries two valid timestamps in order, none later than the clock
  reading \<open>c\<close>.
\<close>

definition stamped :: "int \<Rightarrow> todo_app \<Rightarrow> bool" where
  "stamped c st \<longleftrightarrow>
     list_all (\<lambda>t. \<exists>a b. createdAt t = Date a \<and> updatedAt t = Date b \<and> a \<le> b \<and> b \<le> c)
       (items (todoRepository st))"

text \<open>
  An object the store does not hold: it is allocated and is none of the store's items.
  Every object a read hands out is such an object, and stays one.
\<close>

definition handed_out :: "addr \<Rightarrow> world \<Rightarrow> bool" where
  "handed_out a w \<longleftrightarrow> a < next_addr w \<and> a \<notin> set (h_items w) \<and> store_wf w"

text \<open>Two worlds that differ at most in the fields of the object at \<open>a\<close>.\<close>

definition agree_off :: "addr \<Rightarrow> world \<Rightarrow> world \<Rightarrow> bool" where
  "agree_off a w w' \<longleftrightarrow>
     h_items w' = h_items w \<and> h_nextId w' = h_nextId w \<and> next_addr w' = next_addr w \<and>
     dates w' = dates w \<and> (\<forall>b. b \<noteq> a \<longrightarrow> objs w' b = objs w b)"

text \<open>What \<open>getById(rid).k\<close> reads (a date by its time value).\<close>

definition seen_field :: "number \<Rightarrow> string \<Rightarrow> world \<Rightarrow> seen option" where
  "seen_field rid k w = (case seen_getById rid w of None \<Rightarrow> None | Some obj \<Rightarrow> obj k)"

text \<open>Sample data for the concrete instances below.\<close>

definition buy_milk :: todo where
  "buy_milk = \<lparr>item_id = Fin 0, todo_text = ''Buy milk'', status = Pending,
                createdAt = Date 1000, updatedAt = Date 1000,
                dueDate = None, priority = Medium\<rparr>"

definition app0 :: todo_app where
  "app0 = \<lparr>todoRepository = \<lparr>items = [], nextId = Fin 1\<rparr>, filter_sel = All\<rparr>"

definition new_milk :: new_todo where
  "new_milk = \<lparr>n_text = ''Buy milk'', n_status = Pending,
                n_dueDate = Some (Date 5000), n_priority = Medium\<rparr>"

definition new_report :: new_todo where
  "new_report = \<lparr>n_text = ''File report'', n_status = Completed,
                  n_dueDate = None, n_priority = High\<rparr>"

definition no_change :: update_dto where
  "no_change = \<lparr>u_text = None, u_status = None, u_priority = None, u_dueDate = KeyAbsent\<rparr>"

text \<open>
  A store with one task whose \<open>createdAt\<close> is a date made by the caller, as
  \<open>addTodo\<close> does: the date is at address 0, the stored task at 1, the copy that
  \<open>create\<close> returned at 2.
\<close>

definition milk_fields :: fields where
  "milk_fields = [''text'' \<mapsto> Prim (PStr ''Buy milk''), ''createdAt'' \<mapsto> DateRef 0]"

definition milk_world :: world where
  "milk_world = snd (create_h milk_fields (snd (new_Date 1000 world0)))"

text \<open>\<open>new Date(s)\<close> for strings that are not dates: the invalid date.\<close>

definition parse_invalid :: "string \<Rightarrow> date" where
  "parse_invalid s = InvalidDate"

section \<open>Properties\<close>

subsection \<open>Result: construction and value access\<close>

lemma ok_eq: "ok v = Inr \<lparr>isSuccess = True, isFailure = False, error = None, r_value = v\<rparr>"
  by (simp add: ok_def Result_new_def)

lemma fail_eq:
  "fail e = (if e = [] then Inl (InvalidOperation ''A failing result needs to contain an error message'')
             else Inr \<lparr>isSuccess = False, isFailure = True, error = Some e, r_value = None\<rparr>)"
  by (simp add: fail_def Result_new_def)

text \<open>
  C8. A result that the constructor lets through is a success or a failure and never
  both: a success carries no error message and \<open>getValue\<close> returns its value, a
  failure carries a message and \<open>getValue\<close> throws. A success with an error message
  and a failure without one are rejected by the constructor. \<open>Result.ok(x).getValue()\<close>
  is \<open>x\<close>; \<open>Result.fail(msg)\<close> is a failure for a message that is not empty, and
  is rejected for the empty one.
\<close>

theorem Result_invariants:
  fixes v :: "'a option"
  shows
  "(\<forall>r. Result_new s e v = Inr r \<longrightarrow>
      isSuccess r \<noteq> isFailure r \<and>
      (isSuccess r \<longrightarrow> \<not> truthy (error r) \<and> getValue r = Inr v) \<and>
      (isFailure r \<longrightarrow> truthy (error r) \<and> getValue r = Inl FailedResultValue)) \<and>
   (truthy e \<longrightarrow> (\<exists>m. Result_new True e v = Inl (InvalidOperation m))) \<and>
   (\<not> truthy e \<longrightarrow> (\<exists>m. Result_new False e v = Inl (InvalidOperation m))) \<and>
   (\<exists>r. ok v = Inr r \<and> isSuccess r \<and> \<not> isFailure r \<and> error r = None \<and> getValue r = Inr v) \<and>
   (msg \<noteq> [] \<longrightarrow>
      (\<exists>r. (fail msg :: error + 'a result) = Inr r \<and> isFailure r \<and> \<not> isSuccess r \<and>
           error r = Some msg \<and> r_value r = None \<and> getValue r = Inl FailedResultValue)) \<and>
   (\<exists>m. (fail [] :: error + 'a result) = Inl (InvalidOperation m))"
  by (auto simp: Result_new_def getValue_def ok_eq fail_eq)

theorem Result_invariants_witness:
  "Result_new False (Some ''Todo not found'') (None :: todo option)
     = Inr \<lparr>isSuccess = False, isFailure = True, error = Some ''Todo not found'', r_value = None\<rparr> \<and>
   getValue \<lparr>isSuccess = False, isFailure = True, error = Some ''Todo not found'',
             r_value = (None :: todo option)\<rparr> = Inl FailedResultValue \<and>
   (\<exists>m. Result_new True (Some ''Todo not found'') (None :: todo option) = Inl (InvalidOperation m)) \<and>
   (\<exists>r. (fail ''Todo not found'' :: error + todo result) = Inr r \<and> isFailure r)"
  using Result_invariants [of False "Some ''Todo not found''" "None :: todo option" "''Todo not found''"]
  by (auto simp: Result_new_def getValue_def)

subsection \<open>Numbers and the constructor\<close>

lemma copy_id [simp]: "copy x = x"
  by (simp add: copy_def)

lemma map_copy [simp]: "map copy xs = xs"
  by (induction xs) simp_all

lemma strict_eq_imp_eq: "strict_eq a b \<Longrightarrow> a = b"
  by (simp add: strict_eq_def)

lemma strict_eq_Fin [simp]: "strict_eq (Fin a) b \<longleftrightarrow> b = Fin a"
  by (auto simp: strict_eq_def)

lemma round_add1_ge: "n \<le> round_add1 n"
  by (simp add: round_add1_def)

lemma round_add1_exact: "- two53 \<le> n \<Longrightarrow> n < two53 \<Longrightarrow> round_add1 n = n + 1"
  by (simp add: round_add1_def)

lemma js_add1_below_limit:
  assumes "below_limit (js_add1 x)"
  shows "\<exists>n. x = Fin n \<and> n < two53"
proof (cases x)
  case (Fin n)
  with assms have "round_add1 n < two53" by simp
  with round_add1_ge [of n] have "n < two53" by linarith
  with Fin show ?thesis by simp
qed (use assms in simp_all)

lemma load_items_Inr: "load_items seen xs = Inr ys \<Longrightarrow> ys = xs"
  by (induction xs arbitrary: seen ys) (auto split: if_splits sum.splits)

lemma load_items_ok_iff:
  "(\<exists>ys. load_items seen xs = Inr ys) \<longleftrightarrow>
     (\<forall>x\<in>set xs. \<not> js_le (item_id x) (Fin 0) \<and> item_id x \<notin> seen) \<and> distinct (map item_id xs)"
proof (induction xs arbitrary: seen)
  case Nil
  show ?case by simp
next
  case (Cons x xs)
  show ?case
  proof (cases "js_le (item_id x) (Fin 0) \<or> item_id x \<in> seen")
    case True
    then show ?thesis by auto
  next
    case False
    then have "(\<exists>ys. load_items seen (x # xs) = Inr ys) \<longleftrightarrow>
               (\<exists>ys. load_items (insert (item_id x) seen) xs = Inr ys)"
      by (auto split: sum.splits)
    also have "\<dots> \<longleftrightarrow> (\<forall>y\<in>set xs. \<not> js_le (item_id y) (Fin 0) \<and> item_id y \<notin> insert (item_id x) seen) \<and>
               distinct (map item_id xs)"
      by (rule Cons.IH)
    also have "\<dots> \<longleftrightarrow> (\<forall>y\<in>set (x # xs). \<not> js_le (item_id y) (Fin 0) \<and> item_id y \<notin> seen) \<and>
               distinct (map item_id (x # xs))"
      using False by (auto simp: image_iff)
    finally show ?thesis .
  qed
qed

lemma load_items_error:
  "load_items seen xs = Inl e \<Longrightarrow> (\<exists>n. e = InvalidID n \<or> e = DuplicateID n)"
  by (induction xs arbitrary: seen) (auto split: if_splits sum.splits)

lemma fold_js_max_Fin:
  "fold (\<lambda>n acc. js_max acc n) (map Fin ks) (Fin a) = Fin (fold max ks a)"
  by (induction ks arbitrary: a) (simp_all add: js_max_def max_def)

lemma Math_max0_Fin: "Math_max0 (map Fin ks) = Fin (Max (insert 0 (set ks)))"
  using Max.set_eq_fold [of 0 ks] by (simp add: Math_max0_def fold_js_max_Fin)

lemma fold_js_max_NaN: "fold (\<lambda>n acc. js_max acc n) ns NaN = NaN"
  by (induction ns) (simp_all add: js_max_def)

lemma fold_js_max_PosInf:
  "fold (\<lambda>n acc. js_max acc n) ns PosInf = PosInf \<or> fold (\<lambda>n acc. js_max acc n) ns PosInf = NaN"
proof (induction ns)
  case Nil
  show ?case by simp
next
  case (Cons n ns)
  have "js_max PosInf n = PosInf \<or> js_max PosInf n = NaN"
    by (cases n) (simp_all add: js_max_def)
  with Cons.IH fold_js_max_NaN [of ns] show ?case
    by auto
qed

lemma fold_js_max_finite:
  assumes "fold (\<lambda>n acc. js_max acc n) ns a = Fin M"
  shows "\<forall>n\<in>set ns. n \<noteq> NaN \<and> n \<noteq> PosInf"
  using assms
proof (induction ns arbitrary: a)
  case Nil
  show ?case by simp
next
  case (Cons n ns)
  have n: "n \<noteq> NaN \<and> n \<noteq> PosInf"
  proof (rule ccontr)
    assume "\<not> (n \<noteq> NaN \<and> n \<noteq> PosInf)"
    then consider "n = NaN" | "n = PosInf" "a = NaN" | "n = PosInf" "a \<noteq> NaN" by blast
    then have "js_max a n = NaN \<or> js_max a n = PosInf"
      by cases (auto simp: js_max_def elim: js_le.elims)
    with Cons.prems fold_js_max_NaN [of ns] fold_js_max_PosInf [of ns] show False
      by auto
  qed
  from Cons.prems have "fold (\<lambda>n acc. js_max acc n) ns (js_max a n) = Fin M"
    by simp
  from Cons.IH [OF this] n show ?case by simp
qed

lemma positive_finite:
  assumes "\<not> js_le n (Fin 0)" and "n \<noteq> NaN" and "n \<noteq> PosInf"
  shows "\<exists>k. n = Fin k \<and> 0 < k"
  using assms by (cases n) simp_all

lemma findIndex_None: "findIndex P xs = None \<longleftrightarrow> (\<forall>x\<in>set xs. \<not> P x)"
  by (induction xs) (auto split: option.splits)

lemma findIndex_Some:
  "findIndex P xs = Some i \<Longrightarrow> i < length xs \<and> P (xs ! i) \<and> find P xs = Some (xs ! i)"
  by (induction xs arbitrary: i) (auto split: option.splits if_splits)

lemma find_update_same:
  assumes "findIndex P xs = Some i" and "P y"
  shows "find P (xs[i := y]) = Some y"
  using assms by (induction xs arbitrary: i) (auto split: option.splits if_splits)

lemma find_update_other:
  assumes "findIndex P xs = Some i" and "\<not> Q (xs ! i)" and "\<not> Q y"
  shows "find Q (xs[i := y]) = find Q xs"
  using assms by (induction xs arbitrary: i) (auto split: option.splits if_splits)

lemma spread_todo_id [simp]: "item_id (spread_todo old u) = item_id old"
  by (simp add: spread_todo_def)

lemma ids_update [simp]: "ids (snd (update spread_todo rid u repo)) = ids repo"
  by (auto simp: update_def ids_def Let_def map_update list_eq_iff_nth_eq nth_list_update
      dest: findIndex_Some split: option.splits)

lemma nextId_update [simp]: "nextId (snd (update sp rid u repo)) = nextId repo"
  by (simp add: update_def Let_def split: option.splits)

lemma nextId_delete [simp]: "nextId (snd (delete rid repo)) = nextId repo"
  by (simp add: delete_def Let_def)

lemma nextId_create: "nextId (snd (create item repo)) = js_add1 (nextId repo)"
  by (simp add: create_def Let_def)

lemma items_create: "items (snd (create item repo)) = items repo @ [item\<lparr>item_id := nextId repo\<rparr>]"
  by (simp add: create_def Let_def)

lemma fst_create: "fst (create item repo) = item\<lparr>item_id := nextId repo\<rparr>"
  by (simp add: create_def Let_def)

lemma Repository_new_items:
  "Repository_new init = Inr repo \<Longrightarrow> items repo = init"
  by (auto simp: Repository_new_def split: sum.splits dest: load_items_Inr)

lemma Repository_new_below_limit:
  assumes "Repository_new init = Inr repo" and "below_limit (nextId repo)"
  shows "\<exists>ks. map item_id init = map Fin ks \<and> (\<forall>k\<in>set ks. 0 < k \<and> k < two53) \<and>
           nextId repo = Fin (if init = [] then 1 else Max (set ks) + 1)"
proof (cases "init = []")
  case True
  with assms(1) show ?thesis
    by (auto simp: Repository_new_def split: sum.splits)
next
  case False
  from assms(1) obtain ys where ys: "load_items {} init = Inr ys"
    by (auto simp: Repository_new_def split: sum.splits)
  with assms(1) False have nx: "nextId repo = js_add1 (Math_max0 (map item_id init))"
    by (auto simp: Repository_new_def)
  with assms(2) obtain M where M: "Math_max0 (map item_id init) = Fin M" "M < two53"
    using js_add1_below_limit by fastforce
  from ys have pos: "\<forall>x\<in>set init. \<not> js_le (item_id x) (Fin 0)"
    using load_items_ok_iff [of "{}" init] by auto
  from M(1) have "\<forall>n\<in>set (map item_id init). n \<noteq> NaN \<and> n \<noteq> PosInf"
    unfolding Math_max0_def by (rule fold_js_max_finite)
  with pos have "\<forall>n\<in>set (map item_id init). \<exists>k. n = Fin k \<and> 0 < k"
    by (auto intro: positive_finite)
  then have "\<exists>ks. map item_id init = map Fin ks \<and> (\<forall>k\<in>set ks. 0 < k)"
  proof (induction init)
    case Nil
    show ?case by simp
  next
    case (Cons x xs)
    then obtain ks where "map item_id xs = map Fin ks" "\<forall>k\<in>set ks. 0 < k"
      by auto
    moreover from Cons.prems obtain k where "item_id x = Fin k" "0 < k"
      by auto
    ultimately have "map item_id (x # xs) = map Fin (k # ks) \<and> (\<forall>j\<in>set (k # ks). 0 < j)"
      by simp
    then show ?case by blast
  qed
  then obtain ks where ks: "map item_id init = map Fin ks" "\<forall>k\<in>set ks. 0 < k"
    by blast
  with False have ne: "ks \<noteq> []" by auto
  have mx: "Max (insert 0 (set ks)) = Max (set ks)"
  proof -
    from ne obtain k where k: "k \<in> set ks" by (cases ks) auto
    with ks(2) have "0 < k" by simp
    also have "k \<le> Max (set ks)" using k by simp
    finally have "0 < Max (set ks)" .
    moreover have "Max (insert 0 (set ks)) = max 0 (Max (set ks))"
      using ne by (simp add: Max_insert)
    ultimately show ?thesis by simp
  qed
  from M ks(1) have MM: "M = Max (set ks)"
    by (simp add: Math_max0_Fin mx)
  have "\<forall>k\<in>set ks. k < two53"
  proof
    fix k assume "k \<in> set ks"
    then have "k \<le> Max (set ks)" by simp
    with M(2) MM show "k < two53" by simp
  qed
  moreover have "0 \<le> M"
  proof -
    from ne obtain k where k: "k \<in> set ks" by (cases ks) auto
    with ks(2) have "0 < k" by simp
    also have "k \<le> Max (set ks)" using k by simp
    finally show ?thesis using MM by simp
  qed
  then have "round_add1 M = M + 1"
    using M(2) by (intro round_add1_exact) (simp_all add: two53_def)
  ultimately show ?thesis
    using ks nx M(1) MM False by auto
qed

lemma repo_inv_new:
  assumes "Repository_new init = Inr repo" and "below_limit (nextId repo)"
  shows "repo_inv repo"
proof -
  from Repository_new_below_limit [OF assms] obtain ks where
    ks: "map item_id init = map Fin ks" "\<forall>k\<in>set ks. 0 < k \<and> k < two53"
        "nextId repo = Fin (if init = [] then 1 else Max (set ks) + 1)"
    by blast
  from assms(1) have its: "items repo = init"
    by (rule Repository_new_items)
  from assms(1) have "distinct (map item_id init)"
    using load_items_ok_iff [of "{}" init] by (auto simp: Repository_new_def split: sum.splits)
  then have dist: "distinct (ids repo)"
    by (simp add: ids_def its)
  show ?thesis
  proof (cases "init = []")
    case True
    with ks(3) its show ?thesis
      by (simp add: repo_inv_def ids_def two53_def)
  next
    case False
    with ks(1) have ne: "ks \<noteq> []" by auto
    have le: "k \<le> Max (set ks)" if "k \<in> set ks" for k
      using that by simp
    from ne obtain k0 where "k0 \<in> set ks" by (cases ks) auto
    with ks(2) le [of k0] have "0 < Max (set ks)" "Max (set ks) < two53"
      using Max_in [of "set ks"] ne by auto
    moreover have "list_all (pos_below (Max (set ks) + 1)) (map Fin ks)"
      using ks(2) le by (auto simp: list_all_iff)
    ultimately show ?thesis
      using dist ks False by (simp add: repo_inv_def ids_def its)
  qed
qed

lemma pos_below_mono: "pos_below m x \<Longrightarrow> m \<le> m' \<Longrightarrow> pos_below m' x"
  by (cases x) simp_all

lemma repo_inv_create:
  assumes "repo_inv repo" and "below_limit (nextId repo)"
  shows "repo_inv (snd (create item repo))"
proof -
  from assms obtain m where m: "nextId repo = Fin m" "1 \<le> m" "m < two53"
    "list_all (pos_below m) (ids repo)" "distinct (ids repo)"
    by (cases "nextId repo") (auto simp: repo_inv_def)
  have r: "round_add1 m = m + 1"
    using m(2,3) by (intro round_add1_exact) (simp_all add: two53_def)
  have "Fin m \<notin> set (ids repo)"
    using m(4) by (auto simp: list_all_iff)
  moreover have "list_all (pos_below (m + 1)) (ids repo)"
    using m(4) by (auto simp: list_all_iff intro: pos_below_mono)
  ultimately show ?thesis
    using m r by (simp add: repo_inv_def ids_def create_def Let_def)
qed

lemma repo_inv_update: "repo_inv repo \<Longrightarrow> repo_inv (snd (update spread_todo rid u repo))"
  by (simp add: repo_inv_def cong: number.case_cong)

lemma repo_inv_delete: "repo_inv repo \<Longrightarrow> repo_inv (snd (delete rid repo))"
  by (auto simp: repo_inv_def ids_def delete_def Let_def list_all_iff distinct_map_filter
      split: number.splits)

lemma below_limit_apply_op:
  "below_limit (nextId (apply_op op repo)) \<Longrightarrow> below_limit (nextId repo)"
proof (cases op)
  case (Create item)
  assume "below_limit (nextId (apply_op op repo))"
  with Create have "below_limit (js_add1 (nextId repo))"
    by (simp add: nextId_create)
  then show ?thesis
    using js_add1_below_limit by fastforce
qed simp_all

lemma below_limit_run_ops:
  "below_limit (nextId (run_ops ops repo)) \<Longrightarrow> below_limit (nextId repo)"
  unfolding run_ops_def
  by (induction ops arbitrary: repo) (auto dest: below_limit_apply_op)

lemma repo_inv_apply_op:
  "repo_inv repo \<Longrightarrow> below_limit (nextId repo) \<Longrightarrow> repo_inv (apply_op op repo)"
  by (cases op) (simp_all add: repo_inv_create repo_inv_update repo_inv_delete)

lemma repo_inv_run_ops:
  assumes "repo_inv repo" and "below_limit (nextId (run_ops ops repo))"
  shows "repo_inv (run_ops ops repo)"
  using assms
proof (induction ops arbitrary: repo)
  case Nil
  then show ?case by (simp add: run_ops_def)
next
  case (Cons op ops)
  from Cons.prems(2) have fin: "below_limit (nextId (run_ops ops (apply_op op repo)))"
    by (simp add: run_ops_def)
  then have "below_limit (nextId (apply_op op repo))"
    by (rule below_limit_run_ops)
  then have "below_limit (nextId repo)"
    by (rule below_limit_apply_op)
  with Cons.prems(1) have "repo_inv (apply_op op repo)"
    by (rule repo_inv_apply_op)
  from Cons.IH [OF this fin] show ?case
    by (simp add: run_ops_def)
qed

lemma reachable_inv:
  assumes "Repository_new init = Inr repo0" and "below_limit (nextId (run_ops ops repo0))"
  shows "repo_inv (run_ops ops repo0)"
proof -
  from assms(2) have "below_limit (nextId repo0)"
    by (rule below_limit_run_ops)
  with assms(1) have "repo_inv repo0"
    by (rule repo_inv_new)
  then show ?thesis
    using assms(2) by (rule repo_inv_run_ops)
qed

subsection \<open>Identities\<close>

lemma repo_inv_fresh: "repo_inv repo \<Longrightarrow> nextId repo \<notin> set (ids repo)"
  by (cases "nextId repo") (auto simp: repo_inv_def list_all_iff)

lemma repo_inv_below:
  "repo_inv repo \<Longrightarrow> list_all (\<lambda>x. js_lt (item_id x) (nextId repo)) (items repo)"
proof -
  assume inv: "repo_inv repo"
  then obtain m where m: "nextId repo = Fin m" "list_all (pos_below m) (ids repo)"
    by (cases "nextId repo") (auto simp: repo_inv_def)
  have "js_lt x (Fin m)" if "pos_below m x" for x
    using that by (cases x) simp_all
  with m show ?thesis
    by (auto simp: list_all_iff ids_def)
qed

text \<open>
  C2, amended. For a store built by the constructor and changed by any operations, as
  long as its next identity is below \<open>2 ^ 53\<close>: the constructor started the next
  identity at the greatest identity of the initial items plus one (at 1 when there are
  none); every identity present is below the next one; \<open>create\<close> raises the next
  identity (and does so again while it is below \<open>2 ^ 53\<close>) and returns an item whose
  identity was not present before; two \<open>create\<close>s in a row of the same item return
  different identities.
\<close>

theorem id_freshness:
  fixes init :: "todo list"
  assumes "Repository_new init = Inr repo0"
    and "below_limit (nextId (run_ops ops repo0))"
  shows
    "nextId repo0 = Fin (if init = [] then 1 else Max (set (map (the_int \<circ> item_id) init)) + 1) \<and>
     (let repo = run_ops ops repo0;
          (first, repo1) = create item repo;
          (second, repo2) = create item repo1
      in list_all (\<lambda>x. js_lt (item_id x) (nextId repo)) (items repo) \<and>
         js_lt (nextId repo) (nextId repo1) \<and>
         (below_limit (nextId repo1) \<longrightarrow> js_lt (nextId repo1) (nextId repo2)) \<and>
         item_id first \<notin> set (ids repo) \<and>
         item_id second \<notin> set (ids repo1) \<and>
         item_id first \<noteq> item_id second \<and>
         list_all (\<lambda>x. js_lt (item_id x) (nextId repo1)) (items repo1))"
proof -
  let ?repo = "run_ops ops repo0"
  let ?repo1 = "snd (create item ?repo)"
  from assms(2) have b0: "below_limit (nextId repo0)"
    by (rule below_limit_run_ops)
  from Repository_new_below_limit [OF assms(1) b0] obtain ks where
    ks: "map item_id init = map Fin ks"
        "nextId repo0 = Fin (if init = [] then 1 else Max (set ks) + 1)"
    by blast
  from ks(1) have "map (the_int \<circ> item_id) init = map (the_int \<circ> Fin) ks"
    by (metis map_map)
  then have "map (the_int \<circ> item_id) init = ks"
    by (simp add: comp_def)
  with ks(2) have start:
    "nextId repo0 = Fin (if init = [] then 1 else Max (set (map (the_int \<circ> item_id) init)) + 1)"
    by simp
  have inv: "repo_inv ?repo"
    using assms by (rule reachable_inv)
  from inv assms(2) have inv1: "repo_inv ?repo1"
    by (rule repo_inv_create)
  from assms(2) obtain m where m: "nextId ?repo = Fin m" "m < two53"
    by (cases "nextId ?repo") auto
  from inv m(1) have m1: "1 \<le> m"
    by (simp add: repo_inv_def)
  have r: "round_add1 m = m + 1"
    using m(2) m1 by (intro round_add1_exact) (simp_all add: two53_def)
  have n1: "nextId ?repo1 = Fin (m + 1)"
    by (simp add: nextId_create m(1) r)
  have grow: "js_lt (nextId ?repo1) (nextId (snd (create item ?repo1)))"
    if "below_limit (nextId ?repo1)"
  proof -
    from that n1 have "m + 1 < two53" by simp
    then have "round_add1 (m + 1) = m + 2"
      using m1 by (simp add: round_add1_def two53_def)
    moreover have "nextId (snd (create item ?repo1)) = js_add1 (nextId ?repo1)"
      by (rule nextId_create)
    ultimately show ?thesis
      by (simp add: n1)
  qed
  show ?thesis
    using start repo_inv_below [OF inv] repo_inv_below [OF inv1]
      repo_inv_fresh [OF inv] repo_inv_fresh [OF inv1] grow
    by (simp add: Let_def split_beta fst_create n1 m(1))
qed

theorem id_freshness_witness:
  "Repository_new [buy_milk\<lparr>item_id := Fin 3\<rparr>, buy_milk\<lparr>item_id := Fin 7\<rparr>]
     = Inr \<lparr>items = [buy_milk\<lparr>item_id := Fin 3\<rparr>, buy_milk\<lparr>item_id := Fin 7\<rparr>], nextId = Fin 8\<rparr> \<and>
   below_limit (nextId (run_ops [Delete (Fin 7)]
     \<lparr>items = [buy_milk\<lparr>item_id := Fin 3\<rparr>, buy_milk\<lparr>item_id := Fin 7\<rparr>], nextId = Fin 8\<rparr>)) \<and>
   item_id (fst (create buy_milk
     (run_ops [Delete (Fin 7)]
        \<lparr>items = [buy_milk\<lparr>item_id := Fin 3\<rparr>, buy_milk\<lparr>item_id := Fin 7\<rparr>], nextId = Fin 8\<rparr>))) = Fin 8 \<and>
   item_id (fst (create buy_milk (snd (create buy_milk
     (run_ops [Delete (Fin 7)]
        \<lparr>items = [buy_milk\<lparr>item_id := Fin 3\<rparr>, buy_milk\<lparr>item_id := Fin 7\<rparr>], nextId = Fin 8\<rparr>))))) = Fin 9"
proof -
  have h: "Repository_new [buy_milk\<lparr>item_id := Fin 3\<rparr>, buy_milk\<lparr>item_id := Fin 7\<rparr>]
     = Inr \<lparr>items = [buy_milk\<lparr>item_id := Fin 3\<rparr>, buy_milk\<lparr>item_id := Fin 7\<rparr>], nextId = Fin 8\<rparr>"
    by (simp add: Repository_new_def Math_max0_def js_max_def round_add1_def two53_def buy_milk_def)
  have b: "below_limit (nextId (run_ops [Delete (Fin 7)]
     \<lparr>items = [buy_milk\<lparr>item_id := Fin 3\<rparr>, buy_milk\<lparr>item_id := Fin 7\<rparr>], nextId = Fin 8\<rparr>))"
    by (simp add: run_ops_def two53_def)
  show ?thesis
    using h b id_freshness [OF h b, of buy_milk]
    by (simp add: run_ops_def delete_def create_def Let_def buy_milk_def round_add1_def two53_def)
qed

text \<open>
  C2 as stated fails at \<open>2 ^ 53\<close>: from the initial identity \<open>2 ^ 53 - 1\<close> the next
  identity is \<open>2 ^ 53\<close> and the increment leaves it there, so two \<open>create\<close>s in a
  row return the same identity.
\<close>

theorem id_freshness_limit_counterexample:
  "Repository_new [buy_milk\<lparr>item_id := Fin 9007199254740991\<rparr>]
     = Inr \<lparr>items = [buy_milk\<lparr>item_id := Fin 9007199254740991\<rparr>], nextId = Fin 9007199254740992\<rparr> \<and>
   item_id (fst (create buy_milk
      \<lparr>items = [buy_milk\<lparr>item_id := Fin 9007199254740991\<rparr>], nextId = Fin 9007199254740992\<rparr>))
     = Fin 9007199254740992 \<and>
   nextId (snd (create buy_milk
      \<lparr>items = [buy_milk\<lparr>item_id := Fin 9007199254740991\<rparr>], nextId = Fin 9007199254740992\<rparr>))
     = Fin 9007199254740992 \<and>
   item_id (fst (create buy_milk (snd (create buy_milk
      \<lparr>items = [buy_milk\<lparr>item_id := Fin 9007199254740991\<rparr>], nextId = Fin 9007199254740992\<rparr>))))
     = Fin 9007199254740992"
  by (simp add: Repository_new_def Math_max0_def js_max_def round_add1_def two53_def buy_milk_def
      create_def Let_def)

lemma all_pos_below_Fin:
  assumes "\<forall>x\<in>set xs. pos_below m (f x)"
  shows "\<exists>ks. map f xs = map Fin ks \<and> (\<forall>k\<in>set ks. 0 < k \<and> k < m)"
  using assms
proof (induction xs)
  case Nil
  show ?case by simp
next
  case (Cons x xs)
  then obtain ks where ks: "map f xs = map Fin ks" "\<forall>k\<in>set ks. 0 < k \<and> k < m"
    by auto
  from Cons.prems obtain k where k: "f x = Fin k" "0 < k" "k < m"
    by (cases "f x") auto
  with ks have "map f (x # xs) = map Fin (k # ks) \<and> (\<forall>j\<in>set (k # ks). 0 < j \<and> j < m)"
    by simp
  then show ?case by blast
qed

lemma Repository_new_safe:
  assumes "\<forall>x\<in>set init. pos_below two53 (item_id x)" and "distinct (map item_id init)"
  shows "\<exists>repo. Repository_new init = Inr repo \<and> items repo = init \<and>
           nextId repo = Fin (if init = [] then 1 else Max (set (map (the_int \<circ> item_id) init)) + 1)"
proof -
  from all_pos_below_Fin [OF assms(1)] obtain ks where
    ks: "map item_id init = map Fin ks" "\<forall>k\<in>set ks. 0 < k \<and> k < two53"
    by blast
  from ks(1) have "map (the_int \<circ> item_id) init = map (the_int \<circ> Fin) ks"
    by (metis map_map)
  then have tk: "map (the_int \<circ> item_id) init = ks"
    by (simp add: comp_def)
  have pos: "\<forall>x\<in>set init. \<not> js_le (item_id x) (Fin 0)"
  proof
    fix x assume "x \<in> set init"
    with assms(1) have "pos_below two53 (item_id x)" by simp
    then show "\<not> js_le (item_id x) (Fin 0)" by (cases "item_id x") simp_all
  qed
  with assms(2) obtain ys where ys: "load_items {} init = Inr ys"
    using load_items_ok_iff [of "{}" init] by auto
  then have ys': "ys = init" by (rule load_items_Inr)
  show ?thesis
  proof (cases "init = []")
    case True
    with ys ys' show ?thesis by (simp add: Repository_new_def)
  next
    case False
    with ks(1) have ne: "ks \<noteq> []" by auto
    then obtain k0 where k0: "k0 \<in> set ks" by (cases ks) auto
    have "Max (set ks) \<in> set ks" using ne by (intro Max_in) auto
    with ks(2) have M: "0 < Max (set ks)" "Max (set ks) < two53" by auto
    have "Max (insert 0 (set ks)) = max 0 (Max (set ks))"
      using ne by (simp add: Max_insert)
    with M have mx: "Max (insert 0 (set ks)) = Max (set ks)" by simp
    have "round_add1 (Max (set ks)) = Max (set ks) + 1"
      using M by (intro round_add1_exact) (simp_all add: two53_def)
    with ys ys' False mx show ?thesis
      by (simp add: Repository_new_def ks(1) Math_max0_Fin tk)
  qed
qed

text \<open>
  C5, amended. The constructor throws (invalid or duplicate identity) on an initial list
  with an identity that is \<open><= 0\<close> or with a repeated identity. On any other list it
  succeeds and \<open>getAll\<close> returns the list. When the identities are unique positive
  integers below \<open>2 ^ 53\<close>, the next created item gets the greatest identity plus one
  (1 for the empty list).
\<close>

theorem construction:
  "((\<exists>x\<in>set init. js_le (item_id x) (Fin 0)) \<or> \<not> distinct (map item_id init) \<longrightarrow>
      (\<exists>n. Repository_new init = Inl (InvalidID n) \<or> Repository_new init = Inl (DuplicateID n))) \<and>
   ((\<forall>x\<in>set init. \<not> js_le (item_id x) (Fin 0)) \<and> distinct (map item_id init) \<longrightarrow>
      (\<exists>repo. Repository_new init = Inr repo \<and> getAll repo = init)) \<and>
   ((\<forall>x\<in>set init. pos_below two53 (item_id x)) \<and> distinct (map item_id init) \<longrightarrow>
      (\<exists>repo. Repository_new init = Inr repo \<and> getAll repo = init \<and>
         item_id (fst (create item repo)) =
           Fin (if init = [] then 1 else Max (set (map (the_int \<circ> item_id) init)) + 1)))"
proof (intro conjI impI)
  assume bad: "(\<exists>x\<in>set init. js_le (item_id x) (Fin 0)) \<or> \<not> distinct (map item_id init)"
  then have "\<not> (\<exists>ys. load_items {} init = Inr ys)"
    using load_items_ok_iff [of "{}" init] by auto
  then obtain e where "load_items {} init = Inl e"
    by (cases "load_items {} init") auto
  then show "\<exists>n. Repository_new init = Inl (InvalidID n) \<or> Repository_new init = Inl (DuplicateID n)"
    using load_items_error [of "{}" init e] by (auto simp: Repository_new_def)
next
  assume good: "(\<forall>x\<in>set init. \<not> js_le (item_id x) (Fin 0)) \<and> distinct (map item_id init)"
  then obtain ys where ys: "load_items {} init = Inr ys"
    using load_items_ok_iff [of "{}" init] by auto
  then obtain repo where repo: "Repository_new init = Inr repo"
    by (simp add: Repository_new_def)
  then show "\<exists>repo. Repository_new init = Inr repo \<and> getAll repo = init"
    by (auto simp: getAll_def dest: Repository_new_items)
next
  assume safe: "(\<forall>x\<in>set init. pos_below two53 (item_id x)) \<and> distinct (map item_id init)"
  then show "\<exists>repo. Repository_new init = Inr repo \<and> getAll repo = init \<and>
         item_id (fst (create item repo)) =
           Fin (if init = [] then 1 else Max (set (map (the_int \<circ> item_id) init)) + 1)"
    using Repository_new_safe [of init] by (auto simp: getAll_def fst_create)
qed

theorem construction_witness:
  "Repository_new [buy_milk\<lparr>item_id := Fin 3\<rparr>, buy_milk\<lparr>item_id := Fin 7\<rparr>]
     = Inr \<lparr>items = [buy_milk\<lparr>item_id := Fin 3\<rparr>, buy_milk\<lparr>item_id := Fin 7\<rparr>], nextId = Fin 8\<rparr> \<and>
   Repository_new [buy_milk\<lparr>item_id := Fin 3\<rparr>, buy_milk\<lparr>item_id := Fin 0\<rparr>] = Inl (InvalidID (Fin 0)) \<and>
   Repository_new [buy_milk\<lparr>item_id := Fin 3\<rparr>, buy_milk\<lparr>item_id := NegInf\<rparr>] = Inl (InvalidID NegInf) \<and>
   Repository_new [buy_milk\<lparr>item_id := Fin 3\<rparr>, buy_milk\<lparr>item_id := Fin 3\<rparr>] = Inl (DuplicateID (Fin 3)) \<and>
   Repository_new [buy_milk\<lparr>item_id := NaN\<rparr>, buy_milk\<lparr>item_id := NaN\<rparr>] = Inl (DuplicateID NaN)"
  using construction [of "[buy_milk\<lparr>item_id := Fin 3\<rparr>, buy_milk\<lparr>item_id := Fin 7\<rparr>]" buy_milk]
    construction [of "[buy_milk\<lparr>item_id := Fin 3\<rparr>, buy_milk\<lparr>item_id := Fin 0\<rparr>]" buy_milk]
    construction [of "[buy_milk\<lparr>item_id := Fin 3\<rparr>, buy_milk\<lparr>item_id := Fin 3\<rparr>]" buy_milk]
  by (simp add: Repository_new_def Math_max0_def js_max_def round_add1_def two53_def buy_milk_def)

text \<open>
  C5 as stated fails for the initial identity \<open>2 ^ 53\<close>: the next created item gets
  \<open>2 ^ 53\<close> again, which is present already and is not the greatest identity plus
  one.
\<close>

theorem construction_limit_counterexample:
  "Repository_new [buy_milk\<lparr>item_id := Fin 9007199254740992\<rparr>]
     = Inr \<lparr>items = [buy_milk\<lparr>item_id := Fin 9007199254740992\<rparr>], nextId = Fin 9007199254740992\<rparr> \<and>
   item_id (fst (create buy_milk
      \<lparr>items = [buy_milk\<lparr>item_id := Fin 9007199254740992\<rparr>], nextId = Fin 9007199254740992\<rparr>))
     = Fin 9007199254740992 \<and>
   item_id (fst (create buy_milk
      \<lparr>items = [buy_milk\<lparr>item_id := Fin 9007199254740992\<rparr>], nextId = Fin 9007199254740992\<rparr>))
     \<noteq> Fin (9007199254740992 + 1)"
  by (simp add: Repository_new_def Math_max0_def js_max_def round_add1_def two53_def buy_milk_def
      create_def Let_def)

subsection \<open>Deletion\<close>

lemma exists_id_iff:
  "exists_id rid repo \<longleftrightarrow> (\<exists>x\<in>set (items repo). strict_eq (item_id x) rid)"
  by (simp add: exists_id_def list_ex_iff)

lemma filter_absent:
  "\<forall>x\<in>set xs. \<not> strict_eq (item_id x) rid \<Longrightarrow>
     filter (\<lambda>item. \<not> strict_eq (item_id item) rid) xs = xs"
  by (induction xs) auto

lemma delete_absent:
  "\<not> exists_id rid repo \<Longrightarrow> delete rid repo = (False, repo)"
  by (simp add: delete_def Let_def exists_id_iff filter_absent)

lemma delete_removes:
  "\<not> exists_id rid (snd (delete rid repo))"
  by (auto simp: delete_def Let_def exists_id_iff)

lemma delete_true:
  assumes "exists_id rid repo"
  shows "fst (delete rid repo) = True"
proof -
  from assms have "length (filter (\<lambda>item. \<not> strict_eq (item_id item) rid) (items repo))
               < length (items repo)"
    by (auto simp: exists_id_iff intro!: length_filter_less)
  then show ?thesis
    by (simp add: delete_def Let_def)
qed

lemma delete_present:
  assumes "distinct (ids repo)" and "exists_id rid repo"
  shows "\<exists>pre x post. items repo = pre @ x # post \<and> item_id x = rid \<and>
           delete rid repo = (True, repo\<lparr>items := pre @ post\<rparr>)"
proof -
  from assms(2) obtain x where x: "x \<in> set (items repo)" "strict_eq (item_id x) rid"
    by (auto simp: exists_id_iff)
  then have xr: "item_id x = rid"
    by (simp add: strict_eq_imp_eq)
  from x(1) obtain pre post where split: "items repo = pre @ x # post"
    by (auto dest: split_list)
  with assms(1) xr have "rid \<notin> set (map item_id pre)" "rid \<notin> set (map item_id post)"
    by (auto simp: ids_def)
  then have "\<forall>y\<in>set pre. \<not> strict_eq (item_id y) rid" "\<forall>y\<in>set post. \<not> strict_eq (item_id y) rid"
    by (auto dest: strict_eq_imp_eq)
  then have "filter (\<lambda>item. \<not> strict_eq (item_id item) rid) (items repo) = pre @ post"
    using x(2) by (simp add: split filter_absent)
  then have "delete rid repo = (True, repo\<lparr>items := pre @ post\<rparr>)"
    by (simp add: delete_def Let_def split)
  with split xr show ?thesis by blast
qed

lemma deleteTodo_absent:
  "\<not> exists_id rid (todoRepository st) \<Longrightarrow>
     deleteTodo rid st =
       (Inr \<lparr>isSuccess = False, isFailure = True, error = Some ''Todo not found'', r_value = None\<rparr>, st)"
  by (simp add: deleteTodo_def delete_absent fail_eq)

lemma deleteTodo_present:
  assumes "exists_id rid (todoRepository st)"
  shows "deleteTodo rid st =
       (Inr \<lparr>isSuccess = True, isFailure = False, error = None, r_value = Some True\<rparr>,
        st\<lparr>todoRepository := snd (delete rid (todoRepository st))\<rparr>)"
  using delete_true [OF assms]
  by (simp add: deleteTodo_def split_beta Let_def ok_eq)

text \<open>
  C6, amended. In every store, \<open>delete\<close> of an identity that is absent returns false
  and leaves the store as it is; \<open>delete\<close> of one that is present returns true, lowers
  \<open>count\<close> and leaves no item of that identity. In a store built by the constructor
  and changed by any operations, as long as its next identity is below \<open>2 ^ 53\<close>,
  it takes out exactly the one item of that identity and lowers \<open>count\<close> by one.
  \<open>deleteTodo\<close> returns the failure "Todo not found" when the identity is absent and a
  success carrying true otherwise; neither throws.
\<close>

theorem delete_semantics:
  fixes init :: "todo list" and r :: "todo repository"
  assumes "Repository_new init = Inr repo0"
    and "below_limit (nextId (run_ops ops repo0))"
  shows
    "(\<not> exists_id rid r \<longrightarrow>
        delete rid r = (False, r) \<and> count (snd (delete rid r)) = count r) \<and>
     (exists_id rid r \<longrightarrow>
        fst (delete rid r) = True \<and> count (snd (delete rid r)) < count r \<and>
        \<not> exists_id rid (snd (delete rid r))) \<and>
     (let repo = run_ops ops repo0 in
        exists_id rid repo \<longrightarrow>
          count (snd (delete rid repo)) + 1 = count repo \<and>
          (\<exists>pre x post. items repo = pre @ x # post \<and> item_id x = rid \<and>
             items (snd (delete rid repo)) = pre @ post)) \<and>
     (\<not> exists_id rid (todoRepository st) \<longrightarrow>
        (\<exists>res. fst (deleteTodo rid st) = Inr res \<and> isFailure res \<and> \<not> isSuccess res \<and>
           error res = Some ''Todo not found'') \<and>
        snd (deleteTodo rid st) = st) \<and>
     (exists_id rid (todoRepository st) \<longrightarrow>
        (\<exists>res. fst (deleteTodo rid st) = Inr res \<and> isSuccess res \<and> getValue res = Inr (Some True)) \<and>
        todoRepository (snd (deleteTodo rid st)) = snd (delete rid (todoRepository st)))"
proof -
  let ?repo = "run_ops ops repo0"
  have "repo_inv ?repo"
    using assms by (rule reachable_inv)
  then have dist: "distinct (ids ?repo)"
    by (simp add: repo_inv_def)
  have absent: "delete rid r = (False, r) \<and> count (snd (delete rid r)) = count r"
    if "\<not> exists_id rid r"
    using that by (simp add: delete_absent)
  have present: "fst (delete rid r) = True \<and> count (snd (delete rid r)) < count r \<and>
        \<not> exists_id rid (snd (delete rid r))"
    if "exists_id rid r"
    using delete_true [OF that] delete_removes [of rid r]
    by (simp add: count_def delete_def Let_def)
  have exact: "count (snd (delete rid ?repo)) + 1 = count ?repo \<and>
          (\<exists>pre x post. items ?repo = pre @ x # post \<and> item_id x = rid \<and>
             items (snd (delete rid ?repo)) = pre @ post)"
    if "exists_id rid ?repo"
  proof -
    from delete_present [OF dist that] obtain pre x post where
      *: "items ?repo = pre @ x # post" "item_id x = rid"
         "delete rid ?repo = (True, ?repo\<lparr>items := pre @ post\<rparr>)"
      by blast
    then show ?thesis
      by (auto simp: count_def)
  qed
  show ?thesis
    using absent present exact
    by (auto simp: Let_def deleteTodo_absent deleteTodo_present getValue_def)
qed

theorem delete_semantics_witness:
  "Repository_new [buy_milk\<lparr>item_id := Fin 3\<rparr>, buy_milk\<lparr>item_id := Fin 7\<rparr>]
     = Inr \<lparr>items = [buy_milk\<lparr>item_id := Fin 3\<rparr>, buy_milk\<lparr>item_id := Fin 7\<rparr>], nextId = Fin 8\<rparr> \<and>
   below_limit (nextId (run_ops []
     \<lparr>items = [buy_milk\<lparr>item_id := Fin 3\<rparr>, buy_milk\<lparr>item_id := Fin 7\<rparr>], nextId = Fin 8\<rparr>)) \<and>
   delete (Fin 3) \<lparr>items = [buy_milk\<lparr>item_id := Fin 3\<rparr>, buy_milk\<lparr>item_id := Fin 7\<rparr>], nextId = Fin 8\<rparr>
     = (True, \<lparr>items = [buy_milk\<lparr>item_id := Fin 7\<rparr>], nextId = Fin 8\<rparr>) \<and>
   delete (Fin 5) \<lparr>items = [buy_milk\<lparr>item_id := Fin 3\<rparr>, buy_milk\<lparr>item_id := Fin 7\<rparr>], nextId = Fin 8\<rparr>
     = (False, \<lparr>items = [buy_milk\<lparr>item_id := Fin 3\<rparr>, buy_milk\<lparr>item_id := Fin 7\<rparr>], nextId = Fin 8\<rparr>) \<and>
   fst (deleteTodo (Fin 1) app0)
     = Inr \<lparr>isSuccess = False, isFailure = True, error = Some ''Todo not found'', r_value = None\<rparr> \<and>
   fst (deleteTodo (Fin 1) (snd (addTodo 1000 new_milk app0)))
     = Inr \<lparr>isSuccess = True, isFailure = False, error = None, r_value = Some True\<rparr>"
proof -
  have h: "Repository_new [buy_milk\<lparr>item_id := Fin 3\<rparr>, buy_milk\<lparr>item_id := Fin 7\<rparr>]
     = Inr \<lparr>items = [buy_milk\<lparr>item_id := Fin 3\<rparr>, buy_milk\<lparr>item_id := Fin 7\<rparr>], nextId = Fin 8\<rparr>"
    by (simp add: Repository_new_def Math_max0_def js_max_def round_add1_def two53_def buy_milk_def)
  have b: "below_limit (nextId (run_ops []
     \<lparr>items = [buy_milk\<lparr>item_id := Fin 3\<rparr>, buy_milk\<lparr>item_id := Fin 7\<rparr>], nextId = Fin 8\<rparr>))"
    by (simp add: run_ops_def two53_def)
  show ?thesis
    using h b
      delete_semantics [OF h b, where rid = "Fin 3" and st = app0
        and r = "\<lparr>items = [buy_milk\<lparr>item_id := Fin 3\<rparr>, buy_milk\<lparr>item_id := Fin 7\<rparr>], nextId = Fin 8\<rparr>"]
      delete_semantics [OF h b, where rid = "Fin 5" and st = app0
        and r = "\<lparr>items = [buy_milk\<lparr>item_id := Fin 3\<rparr>, buy_milk\<lparr>item_id := Fin 7\<rparr>], nextId = Fin 8\<rparr>"]
      delete_semantics [OF h b, where rid = "Fin 1" and st = "snd (addTodo 1000 new_milk app0)"
        and r = "\<lparr>items = [buy_milk\<lparr>item_id := Fin 3\<rparr>, buy_milk\<lparr>item_id := Fin 7\<rparr>], nextId = Fin 8\<rparr>"]
    by (simp add: run_ops_def delete_def Let_def buy_milk_def deleteTodo_def addTodo_def
        create_def app0_def new_milk_def ok_eq fail_eq round_add1_def two53_def)
qed

text \<open>
  C6 as stated fails past \<open>2 ^ 53\<close>: after the initial identity \<open>2 ^ 53 - 1\<close> and
  two \<open>create\<close>s the store holds the identity \<open>2 ^ 53\<close> twice, and \<open>delete\<close>
  of it lowers \<open>count\<close> by two.
\<close>

theorem delete_at_limit_counterexample:
  "Repository_new [buy_milk\<lparr>item_id := Fin 9007199254740991\<rparr>]
     = Inr \<lparr>items = [buy_milk\<lparr>item_id := Fin 9007199254740991\<rparr>], nextId = Fin 9007199254740992\<rparr> \<and>
   map item_id (getAll (run_ops [Create buy_milk, Create buy_milk]
      \<lparr>items = [buy_milk\<lparr>item_id := Fin 9007199254740991\<rparr>], nextId = Fin 9007199254740992\<rparr>))
     = [Fin 9007199254740991, Fin 9007199254740992, Fin 9007199254740992] \<and>
   count (run_ops [Create buy_milk, Create buy_milk]
      \<lparr>items = [buy_milk\<lparr>item_id := Fin 9007199254740991\<rparr>], nextId = Fin 9007199254740992\<rparr>) = 3 \<and>
   fst (delete (Fin 9007199254740992) (run_ops [Create buy_milk, Create buy_milk]
      \<lparr>items = [buy_milk\<lparr>item_id := Fin 9007199254740991\<rparr>], nextId = Fin 9007199254740992\<rparr>)) = True \<and>
   count (snd (delete (Fin 9007199254740992) (run_ops [Create buy_milk, Create buy_milk]
      \<lparr>items = [buy_milk\<lparr>item_id := Fin 9007199254740991\<rparr>], nextId = Fin 9007199254740992\<rparr>))) = 1"
  by (simp add: Repository_new_def Math_max0_def js_max_def round_add1_def two53_def buy_milk_def
      run_ops_def create_def delete_def count_def getAll_def Let_def)

subsection \<open>Update\<close>

lemma findIndex_first:
  "findIndex P xs = Some i \<Longrightarrow> j < i \<Longrightarrow> \<not> P (xs ! j)"
proof (induction xs arbitrary: i j)
  case Nil
  then show ?case by simp
next
  case (Cons x xs)
  then show ?case
    by (cases j) (auto split: option.splits if_splits)
qed

lemma find_Some_findIndex:
  "find P xs = Some x \<Longrightarrow> \<exists>i. findIndex P xs = Some i \<and> xs ! i = x"
  by (induction xs) (auto split: if_splits)

lemma getById_absent:
  "\<not> exists_id rid repo \<Longrightarrow> getById rid repo = None"
  by (auto simp: getById_def exists_id_iff find_None_iff split: option.splits)

lemma update_absent:
  "\<not> exists_id rid repo \<Longrightarrow> update sp rid u repo = (None, repo)"
proof -
  assume "\<not> exists_id rid repo"
  then have "findIndex (\<lambda>item. strict_eq (item_id item) rid) (items repo) = None"
    by (auto simp: findIndex_None exists_id_iff)
  then show ?thesis by (simp add: update_def)
qed

lemma update_present:
  assumes "getById rid repo = Some old"
  shows "\<exists>i. i < length (items repo) \<and> items repo ! i = old \<and> item_id old = rid \<and>
           update sp rid u repo = (Some (sp old u), repo\<lparr>items := (items repo)[i := sp old u]\<rparr>) \<and>
           findIndex (\<lambda>item. strict_eq (item_id item) rid) (items repo) = Some i"
proof -
  from assms have f: "find (\<lambda>item. strict_eq (item_id item) rid) (items repo) = Some old"
    by (auto simp: getById_def split: option.splits)
  then obtain i where i: "findIndex (\<lambda>item. strict_eq (item_id item) rid) (items repo) = Some i"
    "items repo ! i = old"
    using find_Some_findIndex by fastforce
  from findIndex_Some [OF i(1)] i(2) have "i < length (items repo)" "item_id old = rid"
    by (auto dest: strict_eq_imp_eq)
  with i show ?thesis
    by (auto simp: update_def Let_def)
qed

lemma getById_after_update:
  assumes "getById rid repo = Some old"
  shows "getById rid (snd (update spread_todo rid u repo)) = Some (spread_todo old u)"
proof -
  from update_present [OF assms, of spread_todo u] obtain i where
    i: "items repo ! i = old"
       "update spread_todo rid u repo = (Some (spread_todo old u), repo\<lparr>items := (items repo)[i := spread_todo old u]\<rparr>)"
       "findIndex (\<lambda>item. strict_eq (item_id item) rid) (items repo) = Some i"
    by blast
  from findIndex_Some [OF i(3)] i(1) have "strict_eq (item_id old) rid"
    by simp
  then have "find (\<lambda>item. strict_eq (item_id item) rid) ((items repo)[i := spread_todo old u]) = Some (spread_todo old u)"
    by (intro find_update_same [OF i(3)]) simp
  with i(2) show ?thesis by (simp add: getById_def)
qed

lemma getById_other_after_update:
  assumes "other \<noteq> rid"
  shows "getById other (snd (update spread_todo rid u repo)) = getById other repo"
proof (cases "findIndex (\<lambda>item. strict_eq (item_id item) rid) (items repo)")
  case None
  then show ?thesis by (simp add: update_def)
next
  case (Some i)
  from findIndex_Some [OF Some] have "item_id (items repo ! i) = rid"
    by (simp add: strict_eq_imp_eq)
  with assms have
    "find (\<lambda>item. strict_eq (item_id item) other) ((items repo)[i := spread_todo (items repo ! i) u])
       = find (\<lambda>item. strict_eq (item_id item) other) (items repo)"
    by (intro find_update_other [OF Some]) (auto dest: strict_eq_imp_eq)
  with Some show ?thesis by (simp add: update_def Let_def getById_def)
qed

text \<open>
  C10. \<open>update\<close> never inserts or removes: \<open>count\<close> and the sequence of identities
  returned by \<open>getAll\<close> stay the same, every item with another identity stays where
  and what it was, and a failed update changes nothing.
\<close>

theorem update_keeps_membership_and_order:
  "(let repo' = snd (update spread_todo rid u repo) in
      count repo' = count repo \<and>
      map item_id (getAll repo') = map item_id (getAll repo) \<and>
      (\<forall>i < count repo. item_id (items repo ! i) \<noteq> rid \<longrightarrow> items repo' ! i = items repo ! i) \<and>
      (fst (update spread_todo rid u repo) = None \<longrightarrow> repo' = repo))"
proof -
  have len: "length (items (snd (update spread_todo rid u repo))) = length (items repo)"
    by (simp add: update_def Let_def split: option.splits)
  have same: "items (snd (update spread_todo rid u repo)) ! i = items repo ! i"
    if "item_id (items repo ! i) \<noteq> rid" for i
  proof (cases "findIndex (\<lambda>item. strict_eq (item_id item) rid) (items repo)")
    case None
    then show ?thesis by (simp add: update_def)
  next
    case (Some j)
    from findIndex_Some [OF Some] that have "j \<noteq> i" by (auto dest: strict_eq_imp_eq)
    with Some show ?thesis by (simp add: update_def Let_def)
  qed
  have none: "snd (update spread_todo rid u repo) = repo"
    if "fst (update spread_todo rid u repo) = None"
    using that by (simp add: update_def Let_def split: option.splits)
  show ?thesis
    using len same none ids_update [of rid u repo]
    by (simp add: Let_def count_def getAll_def ids_def)
qed

theorem update_keeps_membership_and_order_witness:
  "count (snd (update spread_todo (Fin 3)
       \<lparr>p_text = None, p_status = Some Completed, p_createdAt = None, p_updatedAt = Some (Date 2000),
        p_dueDate = None, p_priority = None\<rparr>
       \<lparr>items = [buy_milk\<lparr>item_id := Fin 3\<rparr>, buy_milk\<lparr>item_id := Fin 7\<rparr>], nextId = Fin 8\<rparr>)) = 2 \<and>
   map item_id (getAll (snd (update spread_todo (Fin 3)
       \<lparr>p_text = None, p_status = Some Completed, p_createdAt = None, p_updatedAt = Some (Date 2000),
        p_dueDate = None, p_priority = None\<rparr>
       \<lparr>items = [buy_milk\<lparr>item_id := Fin 3\<rparr>, buy_milk\<lparr>item_id := Fin 7\<rparr>], nextId = Fin 8\<rparr>))) = [Fin 3, Fin 7]"
  using update_keeps_membership_and_order [of "Fin 3"
      "\<lparr>p_text = None, p_status = Some Completed, p_createdAt = None, p_updatedAt = Some (Date 2000),
        p_dueDate = None, p_priority = None\<rparr>"
      "\<lparr>items = [buy_milk\<lparr>item_id := Fin 3\<rparr>, buy_milk\<lparr>item_id := Fin 7\<rparr>], nextId = Fin 8\<rparr>"]
  by (simp add: getAll_def count_def update_def Let_def spread_todo_def buy_milk_def)

subsection \<open>The application state: view and timestamps\<close>

lemma updateTodo_absent:
  "getById rid (todoRepository st) = None \<Longrightarrow>
     updateTodo pd now rid u st =
       (Inr \<lparr>isSuccess = False, isFailure = True, error = Some ''Todo not found'', r_value = None\<rparr>, st)"
  by (simp add: updateTodo_def fail_eq)

lemma updateTodo_present:
  assumes "getById rid (todoRepository st) = Some old"
  shows "updateTodo pd now rid u st =
       (Inr \<lparr>isSuccess = True, isFailure = False, error = None,
             r_value = Some (spread_todo old (updateData pd now u old))\<rparr>,
        st\<lparr>todoRepository := snd (update spread_todo rid (updateData pd now u old) (todoRepository st))\<rparr>)"
  using update_present [OF assms, of spread_todo "updateData pd now u old"] assms
  by (auto simp: updateTodo_def ok_eq)

lemma addTodo_eq:
  "addTodo now n st =
     (Inr \<lparr>isSuccess = True, isFailure = False, error = None,
           r_value = Some \<lparr>item_id = nextId (todoRepository st), todo_text = n_text n,
                            status = n_status n, createdAt = Date now, updatedAt = Date now,
                            dueDate = n_dueDate n, priority = n_priority n\<rparr>\<rparr>,
      st\<lparr>todoRepository := (todoRepository st)
            \<lparr>items := items (todoRepository st) @
               [\<lparr>item_id = nextId (todoRepository st), todo_text = n_text n,
                 status = n_status n, createdAt = Date now, updatedAt = Date now,
                 dueDate = n_dueDate n, priority = n_priority n\<rparr>],
             nextId := js_add1 (nextId (todoRepository st))\<rparr>\<rparr>)"
  by (simp add: addTodo_def create_def Let_def ok_eq)

lemma TodoAppState_new_eq: "TodoAppState_new = Inr app0"
  by (simp add: TodoAppState_new_def Repository_new_def app0_def)

text \<open>
  C7. With the filter \<open>all\<close> the view is every stored task; with a status it is the
  stored tasks of that status. The view keeps the order of the store, and after any
  operations it is the current filter applied to the current contents of the store.
\<close>

theorem filtered_view:
  "todos (set_filter All st) = getAll (todoRepository st) \<and>
   todos (set_filter (ByStatus s) st) = filter (\<lambda>t. status t = s) (getAll (todoRepository st)) \<and>
   subseq (todos st) (getAll (todoRepository st)) \<and>
   (let st' = app_run pd ops st in
      todos st' = (case filter_sel st' of
                     All \<Rightarrow> getAll (todoRepository st')
                   | ByStatus s' \<Rightarrow> filter (\<lambda>t. status t = s') (getAll (todoRepository st'))))"
  by (auto simp: todos_def set_filter_def Let_def split: todo_filter.splits)

theorem filtered_view_witness:
  "todos (app_run parse_invalid
            [SetFilter (ByStatus Completed), AddTodo 1000 new_milk, AddTodo 1001 new_report] app0)
     = [\<lparr>item_id = Fin 2, todo_text = ''File report'', status = Completed, createdAt = Date 1001,
         updatedAt = Date 1001, dueDate = None, priority = High\<rparr>] \<and>
   map item_id (todos (app_run parse_invalid
            [SetFilter (ByStatus Completed), AddTodo 1000 new_milk, AddTodo 1001 new_report,
             SetFilter All] app0)) = [Fin 1, Fin 2]"
  using filtered_view [of "app_run parse_invalid [AddTodo 1000 new_milk, AddTodo 1001 new_report] app0"
      Completed parse_invalid "[]"]
  by (simp add: app_run_def addTodo_eq set_filter_def todos_def getAll_def Let_def app0_def
      new_milk_def new_report_def round_add1_def two53_def)

lemma stamped_mono: "stamped c st \<Longrightarrow> c \<le> c' \<Longrightarrow> stamped c' st"
  by (fastforce simp: stamped_def list_all_iff)

lemma stamped_addTodo:
  assumes "stamped c st" and "c \<le> now"
  shows "stamped now (snd (addTodo now n st))"
  using stamped_mono [OF assms] by (simp add: addTodo_eq stamped_def)

lemma stamped_deleteTodo: "stamped c st \<Longrightarrow> stamped c (snd (deleteTodo rid st))"
  by (auto simp: deleteTodo_def delete_def Let_def stamped_def list_all_iff split: if_splits)

lemma stamped_set_filter: "stamped c st \<Longrightarrow> stamped c (set_filter v st)"
  by (simp add: set_filter_def stamped_def)

lemma updateData_stamps [simp]:
  "p_createdAt (updateData pd now u old) = None"
  "p_updatedAt (updateData pd now u old) = Some (Date now)"
  "p_text (updateData pd now u old) = u_text u"
  "p_status (updateData pd now u old) = u_status u"
  "p_priority (updateData pd now u old) = u_priority u"
  by (simp_all add: updateData_def)

lemma stamped_updateTodo:
  assumes "stamped c st" and "c \<le> now"
  shows "stamped now (snd (updateTodo pd now rid u st))"
proof (cases "getById rid (todoRepository st)")
  case None
  then show ?thesis
    using stamped_mono [OF assms] by (simp add: updateTodo_absent)
next
  case (Some old)
  from update_present [OF Some, of spread_todo "updateData pd now u old"] obtain i where
    i: "i < length (items (todoRepository st))" "items (todoRepository st) ! i = old"
       "update spread_todo rid (updateData pd now u old) (todoRepository st) =
          (Some (spread_todo old (updateData pd now u old)),
           (todoRepository st)\<lparr>items := (items (todoRepository st))[i := spread_todo old (updateData pd now u old)]\<rparr>)"
    by blast
  from assms(1) i(1,2) obtain a b where
    ab: "createdAt old = Date a" "updatedAt old = Date b" "a \<le> b" "b \<le> c"
    by (auto simp: stamped_def list_all_length)
  have new: "\<exists>a b. createdAt (spread_todo old (updateData pd now u old)) = Date a \<and>
               updatedAt (spread_todo old (updateData pd now u old)) = Date b \<and> a \<le> b \<and> b \<le> now"
    using ab assms(2) by (simp add: spread_todo_def)
  have "list_all (\<lambda>t. \<exists>a b. createdAt t = Date a \<and> updatedAt t = Date b \<and> a \<le> b \<and> b \<le> now)
          ((items (todoRepository st))[i := spread_todo old (updateData pd now u old)])"
    using stamped_mono [OF assms] new
    by (auto simp: stamped_def list_all_iff dest!: set_update_subset_insert [THEN subsetD])
  then show ?thesis
    by (simp add: updateTodo_present [OF Some] i(3) stamped_def)
qed

lemma stamped_run:
  assumes "stamped c st" and "sorted (clock_readings ops)" and "\<forall>n\<in>set (clock_readings ops). c \<le> n"
  shows "\<exists>c'. stamped c' (app_run pd ops st)"
  using assms
proof (induction ops arbitrary: c st)
  case Nil
  then show ?case by (auto simp: app_run_def)
next
  case (Cons op ops)
  show ?case
  proof (cases op)
    case (AddTodo now n)
    with Cons.prems have "stamped now (snd (addTodo now n st))" "sorted (clock_readings ops)"
      "\<forall>m\<in>set (clock_readings ops). now \<le> m"
      by (auto simp: stamped_addTodo)
    from Cons.IH [OF this] AddTodo show ?thesis by (simp add: app_run_def)
  next
    case (UpdateTodo now rid u)
    with Cons.prems have "stamped now (snd (updateTodo pd now rid u st))" "sorted (clock_readings ops)"
      "\<forall>m\<in>set (clock_readings ops). now \<le> m"
      by (auto simp: stamped_updateTodo)
    from Cons.IH [OF this] UpdateTodo show ?thesis by (simp add: app_run_def)
  next
    case (DeleteTodo rid)
    with Cons.prems have "stamped c (snd (deleteTodo rid st))" "sorted (clock_readings ops)"
      "\<forall>m\<in>set (clock_readings ops). c \<le> m"
      by (auto simp: stamped_deleteTodo)
    from Cons.IH [OF this] DeleteTodo show ?thesis by (simp add: app_run_def)
  next
    case (SetFilter v)
    with Cons.prems have "stamped c (set_filter v st)" "sorted (clock_readings ops)"
      "\<forall>m\<in>set (clock_readings ops). c \<le> m"
      by (auto simp: stamped_set_filter)
    from Cons.IH [OF this] SetFilter show ?thesis by (simp add: app_run_def)
  qed
qed

lemma stamped_app0: "stamped c app0"
  by (simp add: stamped_def app0_def)

text \<open>
  C9, amended. As long as the clock never runs backwards from one call to the next, every stored
  task has \<open>createdAt \<le> updatedAt\<close> after any operations from the initial state.
  \<open>addTodo\<close> stamps both with its clock reading; \<open>updateTodo\<close> on a stored task sets
  \<open>updatedAt\<close> to its clock reading and leaves \<open>createdAt\<close> as it was.
\<close>

theorem timestamp_invariant:
  assumes "TodoAppState_new = Inr st0" and "sorted (clock_readings ops)"
  shows
    "list_all (\<lambda>t. date_le (createdAt t) (updatedAt t)) (items (todoRepository (app_run pd ops st0))) \<and>
     (let (res, st') = addTodo now n st in
        \<exists>t. res = ok (Some t) \<and> items (todoRepository st') = items (todoRepository st) @ [t] \<and>
            createdAt t = Date now \<and> updatedAt t = Date now) \<and>
     (\<forall>old. getById rid (todoRepository st) = Some old \<longrightarrow>
        (let (res, st') = updateTodo pd now rid u st in
           \<exists>new. res = ok (Some new) \<and> getById rid (todoRepository st') = Some new \<and>
               updatedAt new = Date now \<and> createdAt new = createdAt old))"
proof -
  from assms(1) have st0: "st0 = app0"
    by (simp add: TodoAppState_new_eq)
  have "\<exists>c. stamped c app0 \<and> (\<forall>n\<in>set (clock_readings ops). c \<le> n)"
  proof (cases "clock_readings ops")
    case Nil
    then show ?thesis by (simp add: stamped_app0)
  next
    case (Cons m ms)
    with assms(2) show ?thesis
      by (intro exI [of _ m]) (auto simp: stamped_app0)
  qed
  then obtain c where "stamped c app0" "\<forall>n\<in>set (clock_readings ops). c \<le> n"
    by blast
  from stamped_run [OF this(1) assms(2) this(2)] obtain c' where "stamped c' (app_run pd ops st0)"
    unfolding st0 by blast
  then have first: "list_all (\<lambda>t. date_le (createdAt t) (updatedAt t))
      (items (todoRepository (app_run pd ops st0)))"
    by (auto simp: stamped_def list_all_iff)
  have second: "let (res, st') = addTodo now n st in
        \<exists>t. res = ok (Some t) \<and> items (todoRepository st') = items (todoRepository st) @ [t] \<and>
            createdAt t = Date now \<and> updatedAt t = Date now"
    by (simp add: addTodo_eq ok_eq)
  have third: "let (res, st') = updateTodo pd now rid u st in
           \<exists>new. res = ok (Some new) \<and> getById rid (todoRepository st') = Some new \<and>
               updatedAt new = Date now \<and> createdAt new = createdAt old"
    if "getById rid (todoRepository st) = Some old" for old
    using getById_after_update [OF that, of "updateData pd now u old"]
    by (simp add: updateTodo_present [OF that] ok_eq spread_todo_def)
  from first second third show ?thesis by blast
qed

theorem timestamp_invariant_witness:
  "TodoAppState_new = Inr app0 \<and>
   sorted (clock_readings [AddTodo 1000 new_milk, UpdateTodo 2000 (Fin 1) (no_change\<lparr>u_status := Some Completed\<rparr>)]) \<and>
   map createdAt (items (todoRepository (app_run parse_invalid
      [AddTodo 1000 new_milk, UpdateTodo 2000 (Fin 1) (no_change\<lparr>u_status := Some Completed\<rparr>)] app0)))
     = [Date 1000] \<and>
   map updatedAt (items (todoRepository (app_run parse_invalid
      [AddTodo 1000 new_milk, UpdateTodo 2000 (Fin 1) (no_change\<lparr>u_status := Some Completed\<rparr>)] app0)))
     = [Date 2000]"
proof -
  have h: "TodoAppState_new = Inr app0"
    by (simp add: TodoAppState_new_def Repository_new_def app0_def)
  have s: "sorted (clock_readings [AddTodo 1000 new_milk,
             UpdateTodo 2000 (Fin 1) (no_change\<lparr>u_status := Some Completed\<rparr>)])"
    by simp
  show ?thesis
    using h s timestamp_invariant [OF h s, of parse_invalid 1000 new_milk app0 "Fin 1" "no_change"]
    by (simp add: app_run_def addTodo_eq updateTodo_def getById_def update_def updateData_def
        spread_todo_def Let_def app0_def new_milk_def no_change_def ok_eq)
qed

text \<open>
  C9 as stated fails when the clock runs backwards between two calls: a task added at
  clock reading 2000 and updated at clock reading 1000 is stored with \<open>createdAt\<close>
  after \<open>updatedAt\<close>.
\<close>

theorem clock_backwards_counterexample:
  "map createdAt (items (todoRepository (app_run parse_invalid
      [AddTodo 2000 new_milk, UpdateTodo 1000 (Fin 1) no_change] app0))) = [Date 2000] \<and>
   map updatedAt (items (todoRepository (app_run parse_invalid
      [AddTodo 2000 new_milk, UpdateTodo 1000 (Fin 1) no_change] app0))) = [Date 1000] \<and>
   \<not> list_all (\<lambda>t. date_le (createdAt t) (updatedAt t))
      (items (todoRepository (app_run parse_invalid
         [AddTodo 2000 new_milk, UpdateTodo 1000 (Fin 1) no_change] app0)))"
  by (simp add: app_run_def addTodo_eq updateTodo_def getById_def update_def updateData_def
      spread_todo_def Let_def app0_def new_milk_def no_change_def ok_eq round_add1_def two53_def)

subsection \<open>The application state: due dates\<close>

text \<open>
  C3, amended. For a stored task, \<open>updateTodo\<close> clears the due date on \<open>null\<close>,
  replaces it by a given \<open>Date\<close>, replaces it by \<open>new Date(s)\<close> for a string \<open>s\<close>
  that is not empty, and leaves it untouched when the key is absent, and also when the
  key is present with the empty string or with \<open>undefined\<close>.
\<close>

theorem due_date_update:
  assumes "getById rid (todoRepository st) = Some old"
  shows
    "(let (res, st') = updateTodo parseDate now rid updates st in
        \<exists>new. res = ok (Some new) \<and> getById rid (todoRepository st') = Some new \<and>
          dueDate new =
            (case u_dueDate updates of
               IsNull \<Rightarrow> None
             | IsDate d \<Rightarrow> Some d
             | IsString s \<Rightarrow> (if s \<noteq> [] then Some (parseDate s) else dueDate old)
             | KeyAbsent \<Rightarrow> dueDate old
             | IsUndefined \<Rightarrow> dueDate old))"
  using getById_after_update [OF assms, of "updateData parseDate now updates old"]
  by (simp add: updateTodo_present [OF assms] ok_eq spread_todo_def updateData_def
      split: due_update.splits)

theorem due_date_update_witness:
  "getById (Fin 1) (todoRepository (snd (addTodo 1000 new_milk app0)))
     = Some \<lparr>item_id = Fin 1, todo_text = ''Buy milk'', status = Pending, createdAt = Date 1000,
             updatedAt = Date 1000, dueDate = Some (Date 5000), priority = Medium\<rparr> \<and>
   map dueDate (items (todoRepository (snd (updateTodo parse_invalid 2000 (Fin 1)
      (no_change\<lparr>u_dueDate := IsNull\<rparr>) (snd (addTodo 1000 new_milk app0)))))) = [None] \<and>
   map dueDate (items (todoRepository (snd (updateTodo parse_invalid 2000 (Fin 1)
      (no_change\<lparr>u_dueDate := IsDate (Date 7000)\<rparr>) (snd (addTodo 1000 new_milk app0))))))
     = [Some (Date 7000)] \<and>
   map dueDate (items (todoRepository (snd (updateTodo parse_invalid 2000 (Fin 1)
      (no_change\<lparr>u_dueDate := IsString ''soon''\<rparr>) (snd (addTodo 1000 new_milk app0))))))
     = [Some InvalidDate] \<and>
   map dueDate (items (todoRepository (snd (updateTodo parse_invalid 2000 (Fin 1)
      no_change (snd (addTodo 1000 new_milk app0)))))) = [Some (Date 5000)]"
proof -
  have h: "getById (Fin 1) (todoRepository (snd (addTodo 1000 new_milk app0)))
     = Some \<lparr>item_id = Fin 1, todo_text = ''Buy milk'', status = Pending, createdAt = Date 1000,
             updatedAt = Date 1000, dueDate = Some (Date 5000), priority = Medium\<rparr>"
    by (simp add: addTodo_eq getById_def app0_def new_milk_def)
  show ?thesis
    using h due_date_update [OF h, of parse_invalid 2000 "no_change\<lparr>u_dueDate := IsNull\<rparr>"]
    by (simp add: addTodo_eq updateTodo_def getById_def update_def updateData_def
        spread_todo_def Let_def app0_def new_milk_def no_change_def ok_eq parse_invalid_def)
qed

text \<open>
  C3 as stated fails for a date string that is empty: the stored due date stays what it
  was and is not replaced by \<open>new Date(s)\<close> of that string.
\<close>

theorem due_date_empty_string_counterexample:
  "map_option dueDate (getById (Fin 1) (todoRepository (snd (addTodo 1000 new_milk app0))))
     = Some (Some (Date 5000)) \<and>
   map_option dueDate (getById (Fin 1) (todoRepository (snd (updateTodo parse_invalid 2000 (Fin 1)
      (no_change\<lparr>u_dueDate := IsString ''''\<rparr>) (snd (addTodo 1000 new_milk app0))))))
     = Some (Some (Date 5000)) \<and>
   map_option dueDate (getById (Fin 1) (todoRepository (snd (updateTodo parse_invalid 2000 (Fin 1)
      (no_change\<lparr>u_dueDate := IsString ''''\<rparr>) (snd (addTodo 1000 new_milk app0))))))
     \<noteq> Some (Some (parse_invalid ''''))"
  by (simp add: addTodo_eq updateTodo_def getById_def update_def updateData_def
      spread_todo_def Let_def app0_def new_milk_def no_change_def ok_eq parse_invalid_def)

subsection \<open>The store over a heap: frames and invariants\<close>

lemma alloc_obj_simps [simp]:
  "fst (alloc_obj f w) = next_addr w"
  "next_addr (snd (alloc_obj f w)) = Suc (next_addr w)"
  "h_items (snd (alloc_obj f w)) = h_items w"
  "h_nextId (snd (alloc_obj f w)) = h_nextId w"
  "dates (snd (alloc_obj f w)) = dates w"
  "objs (snd (alloc_obj f w)) = (objs w)(next_addr w \<mapsto> f)"
  by (simp_all add: alloc_obj_def)

lemma copy_items_frame:
  "h_items (snd (copy_items xs w)) = h_items w \<and>
   h_nextId (snd (copy_items xs w)) = h_nextId w \<and>
   dates (snd (copy_items xs w)) = dates w \<and>
   next_addr (snd (copy_items xs w)) = next_addr w + length xs \<and>
   (\<forall>b < next_addr w. objs (snd (copy_items xs w)) b = objs w b)"
proof (induction xs arbitrary: w)
  case Nil
  show ?case by simp
next
  case (Cons x xs)
  show ?case
    using Cons.IH [of "snd (alloc_obj (fields_of w x) w)"]
    by (simp add: split_beta Let_def)
qed

lemma copy_items_addrs:
  "fst (copy_items xs w) = [next_addr w ..< next_addr w + length xs]"
proof (induction xs arbitrary: w)
  case Nil
  show ?case by simp
next
  case (Cons x xs)
  show ?case
    using Cons.IH [of "snd (alloc_obj (fields_of w x) w)"]
    by (simp add: split_beta Let_def upt_conv_Cons del: upt_Suc)
qed

lemma fields_of_cong: "objs w' a = objs w a \<Longrightarrow> fields_of w' a = fields_of w a"
  by (simp add: fields_of_def)

lemma deep_cong:
  "objs w' a = objs w a \<Longrightarrow> dates w' = dates w \<Longrightarrow> deep w' a = deep w a"
proof -
  assume o: "objs w' a = objs w a" and d: "dates w' = dates w"
  have r: "resolve w' = resolve w"
    by (auto simp: resolve_def fun_eq_iff d split: val.splits)
  show ?thesis
    unfolding deep_def fields_of_def o r ..
qed

lemma create_h_frame:
  "h_items (snd (create_h item w)) = h_items w @ [next_addr w] \<and>
   next_addr (snd (create_h item w)) = next_addr w + 2"
  by (simp add: create_h_def alloc_obj_def Let_def)

lemma update_h_frame:
  "(set (h_items (snd (update_h rid u w))) \<subseteq> insert (next_addr w) (set (h_items w))) \<and>
   next_addr w \<le> next_addr (snd (update_h rid u w)) \<and>
   (next_addr (snd (update_h rid u w)) = next_addr w \<longrightarrow>
      h_items (snd (update_h rid u w)) = h_items w)"
  by (auto simp: update_h_def alloc_obj_def Let_def split: option.splits
      dest: set_update_subset_insert [THEN subsetD])

lemma delete_h_frame:
  "set (h_items (snd (delete_h rid w))) \<subseteq> set (h_items w) \<and>
   next_addr (snd (delete_h rid w)) = next_addr w"
  by (auto simp: delete_h_def Let_def)

lemma getAll_h_frame:
  "h_items (snd (getAll_h w)) = h_items w \<and>
   next_addr (snd (getAll_h w)) = next_addr w + length (h_items w)"
  by (simp add: getAll_h_def copy_items_frame)

lemma getById_h_frame:
  "h_items (snd (getById_h rid w)) = h_items w \<and>
   next_addr w \<le> next_addr (snd (getById_h rid w))"
  by (simp add: getById_h_def alloc_obj_def Let_def split: option.splits)

lemma new_Date_frame:
  "h_items (snd (new_Date t w)) = h_items w \<and> next_addr (snd (new_Date t w)) = Suc (next_addr w)"
  by (simp add: new_Date_def)

lemma obj_set_frame:
  "h_items (obj_set a k v w) = h_items w \<and> next_addr (obj_set a k v w) = next_addr w"
  by (simp add: obj_set_def split: option.splits)

lemma date_setTime_frame:
  "h_items (date_setTime d t w) = h_items w \<and> next_addr (date_setTime d t w) = next_addr w"
  by (simp add: date_setTime_def split: option.splits)

lemma handed_out_step:
  assumes "handed_out a w"
  shows "handed_out a (h_step op w)"
proof -
  from assms have a: "a < next_addr w" "a \<notin> set (h_items w)" "\<forall>b\<in>set (h_items w). b < next_addr w"
    by (auto simp: handed_out_def store_wf_def list_all_iff)
  have "a < next_addr (h_step op w) \<and> a \<notin> set (h_items (h_step op w)) \<and>
        (\<forall>b\<in>set (h_items (h_step op w)). b < next_addr (h_step op w))"
  proof (cases op)
    case (HCreate item)
    with a show ?thesis using create_h_frame [of item w] by auto
  next
    case (HUpdate rid u)
    with a show ?thesis using update_h_frame [of rid u w] by fastforce
  next
    case (HDelete rid)
    with a show ?thesis using delete_h_frame [of rid w] by auto
  next
    case HGetAll
    with a show ?thesis using getAll_h_frame [of w] by auto
  next
    case (HGetById rid)
    with a show ?thesis using getById_h_frame [of rid w] by fastforce
  next
    case (HNewDate t)
    with a show ?thesis using new_Date_frame [of t w] by auto
  next
    case (HObjSet b k v)
    with a show ?thesis using obj_set_frame [of b k v w] by auto
  next
    case (HSetTime d t)
    with a show ?thesis using date_setTime_frame [of d t w] by auto
  qed
  then show ?thesis
    by (simp add: handed_out_def store_wf_def list_all_iff)
qed

lemma handed_out_run: "handed_out a w \<Longrightarrow> handed_out a (run_h ops w)"
  unfolding run_h_def
  by (induction ops arbitrary: w) (simp_all add: handed_out_step)

lemma store_wf_world0: "store_wf world0"
  by (simp add: store_wf_def world0_def)

lemma store_wf_step:
  assumes "store_wf w"
  shows "store_wf (h_step op w)"
proof -
  from assms have a: "\<forall>b\<in>set (h_items w). b < next_addr w"
    by (auto simp: store_wf_def list_all_iff)
  have "\<forall>b\<in>set (h_items (h_step op w)). b < next_addr (h_step op w)"
  proof (cases op)
    case (HCreate item)
    with a show ?thesis using create_h_frame [of item w] by auto
  next
    case (HUpdate rid u)
    with a show ?thesis using update_h_frame [of rid u w] by fastforce
  next
    case (HDelete rid)
    with a show ?thesis using delete_h_frame [of rid w] by auto
  next
    case HGetAll
    with a show ?thesis using getAll_h_frame [of w] by auto
  next
    case (HGetById rid)
    with a show ?thesis using getById_h_frame [of rid w] by fastforce
  next
    case (HNewDate t)
    with a show ?thesis using new_Date_frame [of t w] by auto
  next
    case (HObjSet b k v)
    with a show ?thesis using obj_set_frame [of b k v w] by auto
  next
    case (HSetTime d t)
    with a show ?thesis using date_setTime_frame [of d t w] by auto
  qed
  then show ?thesis
    by (simp add: store_wf_def list_all_iff)
qed

lemma store_wf_run: "store_wf w \<Longrightarrow> store_wf (run_h ops w)"
  unfolding run_h_def
  by (induction ops arbitrary: w) (simp_all add: store_wf_step)

lemma getAll_h_handed_out:
  assumes "store_wf w" and "a \<in> set (fst (getAll_h w))"
  shows "handed_out a (snd (getAll_h w))"
proof -
  from assms(2) have "next_addr w \<le> a" "a < next_addr w + length (h_items w)"
    by (auto simp: getAll_h_def copy_items_addrs)
  with assms(1) show ?thesis
    using getAll_h_frame [of w]
    by (auto simp: handed_out_def store_wf_def list_all_iff)
qed

lemma getById_h_handed_out:
  assumes "store_wf w" and "fst (getById_h rid w) = Some a"
  shows "handed_out a (snd (getById_h rid w))"
proof -
  from assms(2) have "a = next_addr w" "next_addr (snd (getById_h rid w)) = Suc (next_addr w)"
    by (auto simp: getById_h_def split_beta Let_def split: option.splits)
  with assms(1) show ?thesis
    using getById_h_frame [of rid w]
    by (auto simp: handed_out_def store_wf_def list_all_iff)
qed

subsection \<open>The store over a heap: isolation of field assignments\<close>

lemma agree_off_obj_set: "agree_off a w (obj_set a k v w)"
  by (simp add: agree_off_def obj_set_def split: option.splits)

lemma agree_off_alloc:
  assumes "agree_off a w w'"
  shows "agree_off a (snd (alloc_obj f w)) (snd (alloc_obj f w'))"
  using assms by (simp add: agree_off_def)

lemma agree_off_copy_items:
  assumes "agree_off a w w'" and "a \<notin> set xs"
  shows "fst (copy_items xs w') = fst (copy_items xs w) \<and>
         agree_off a (snd (copy_items xs w)) (snd (copy_items xs w'))"
  using assms
proof (induction xs arbitrary: w w')
  case Nil
  then show ?case by simp
next
  case (Cons x xs)
  let ?w1 = "snd (alloc_obj (fields_of w x) w)"
  let ?w1' = "snd (alloc_obj (fields_of w x) w')"
  from Cons.prems(2) have "x \<noteq> a"
    by auto
  with Cons.prems(1) have "objs w' x = objs w x"
    unfolding agree_off_def by blast
  then have f: "fields_of w' x = fields_of w x"
    by (rule fields_of_cong)
  from Cons.prems(1) have nx: "next_addr w' = next_addr w"
    unfolding agree_off_def by blast
  have "agree_off a ?w1 ?w1'"
    using Cons.prems(1) by (rule agree_off_alloc)
  moreover from Cons.prems(2) have "a \<notin> set xs"
    by simp
  ultimately have ih: "fst (copy_items xs ?w1') = fst (copy_items xs ?w1) \<and>
      agree_off a (snd (copy_items xs ?w1)) (snd (copy_items xs ?w1'))"
    by (rule Cons.IH)
  have c: "copy_items (x # xs) w = (next_addr w # fst (copy_items xs ?w1), snd (copy_items xs ?w1))"
    by (simp add: split_beta Let_def)
  have c': "copy_items (x # xs) w' = (next_addr w # fst (copy_items xs ?w1'), snd (copy_items xs ?w1'))"
    by (simp add: split_beta Let_def f nx)
  show ?case
    unfolding c c' using ih by simp
qed

lemma seen_getAll_agree:
  assumes "agree_off a w w'" and "handed_out a w"
  shows "seen_getAll w' = seen_getAll w"
proof -
  from assms(2) have a: "a < next_addr w" "a \<notin> set (h_items w)"
    by (auto simp: handed_out_def)
  from assms(1) have its: "h_items w' = h_items w"
    by (simp add: agree_off_def)
  from agree_off_copy_items [OF assms(1) a(2)] have
    cs: "fst (copy_items (h_items w) w') = fst (copy_items (h_items w) w)" and
    ag: "agree_off a (snd (copy_items (h_items w) w)) (snd (copy_items (h_items w) w'))"
    by auto
  have "deep (snd (copy_items (h_items w) w')) c = deep (snd (copy_items (h_items w) w)) c"
    if "c \<in> set (fst (copy_items (h_items w) w))" for c
  proof -
    from that a(1) have "c \<noteq> a"
      by (auto simp: copy_items_addrs)
    with ag show ?thesis
      by (intro deep_cong) (auto simp: agree_off_def)
  qed
  then show ?thesis
    by (simp add: seen_getAll_def getAll_h_def split_beta its cs)
qed

lemma seen_getById_agree:
  assumes "agree_off a w w'" and "handed_out a w"
  shows "seen_getById rid w' = seen_getById rid w"
proof -
  from assms(2) have a: "a < next_addr w" "a \<notin> set (h_items w)"
    by (auto simp: handed_out_def)
  from assms(1) have its: "h_items w' = h_items w" and nx: "next_addr w' = next_addr w"
    and ob: "\<And>b. b \<noteq> a \<Longrightarrow> objs w' b = objs w b" and dt: "dates w' = dates w"
    by (auto simp: agree_off_def)
  have fo: "fields_of w' x = fields_of w x" if "x \<in> set (h_items w)" for x
    using that a(2) by (intro fields_of_cong ob) auto
  then have fi: "find (has_id w' rid) (h_items w) = find (has_id w rid) (h_items w)"
    by (intro find_cong) (auto simp: has_id_def)
  show ?thesis
  proof (cases "find (has_id w rid) (h_items w)")
    case None
    with fi show ?thesis by (simp add: seen_getById_def getById_h_def its)
  next
    case (Some x)
    then have x: "x \<in> set (h_items w)"
      by (auto simp: find_Some_iff)
    have "deep (snd (alloc_obj (fields_of w x) w')) (next_addr w)
            = deep (snd (alloc_obj (fields_of w x) w)) (next_addr w)"
      by (intro deep_cong) (simp_all add: nx dt)
    with Some fi x show ?thesis
      by (simp add: seen_getById_def getById_h_def its fo nx split_beta Let_def)
  qed
qed

lemma deep_fields:
  assumes "fields_of w' a' = fields_of w a" and "dates w' = dates w"
  shows "deep w' a' = deep w a"
proof -
  have r: "resolve w' = resolve w"
    by (auto simp: resolve_def fun_eq_iff assms(2) split: val.splits)
  show ?thesis
    unfolding deep_def assms(1) r ..
qed

lemma copy_items_deep:
  assumes "\<forall>x\<in>set xs. x < next_addr w"
  shows "map (deep (snd (copy_items xs w))) (fst (copy_items xs w)) = map (deep w) xs"
  using assms
proof (induction xs arbitrary: w)
  case Nil
  show ?case by simp
next
  case (Cons x xs)
  let ?w1 = "snd (alloc_obj (fields_of w x) w)"
  let ?w2 = "snd (copy_items xs ?w1)"
  from Cons.prems have lt: "\<forall>y\<in>set xs. y < next_addr ?w1"
    by auto
  have rest: "map (deep ?w2) (fst (copy_items xs ?w1)) = map (deep w) xs"
  proof -
    have "map (deep ?w1) xs = map (deep w) xs"
      using Cons.prems by (intro map_cong refl deep_cong) auto
    with Cons.IH [OF lt] show ?thesis by simp
  qed
  have "objs ?w2 (next_addr w) = Some (fields_of w x)" "dates ?w2 = dates w"
    using copy_items_frame [of xs ?w1] by simp_all
  then have "deep ?w2 (next_addr w) = deep w x"
    by (intro deep_fields) (simp_all add: fields_of_def)
  with rest show ?case
    by (simp add: split_beta Let_def)
qed

lemma agree_off_fields:
  "agree_off a w w' \<Longrightarrow> b \<noteq> a \<Longrightarrow> fields_of w' b = fields_of w b"
  unfolding agree_off_def by (intro fields_of_cong) blast

lemma agree_off_has_id:
  "agree_off a w w' \<Longrightarrow> b \<noteq> a \<Longrightarrow> has_id w' rid b = has_id w rid b"
  by (simp add: has_id_def agree_off_fields)

lemma agree_off_items: "agree_off a w w' \<Longrightarrow> h_items w' = h_items w"
  by (simp add: agree_off_def)

lemma agree_off_next: "agree_off a w w' \<Longrightarrow> next_addr w' = next_addr w"
  by (simp add: agree_off_def)

lemma findIndex_cong:
  "(\<And>x. x \<in> set xs \<Longrightarrow> P x = Q x) \<Longrightarrow> findIndex P xs = findIndex Q xs"
  by (induction xs) auto

lemma agree_off_set_items:
  assumes "agree_off a w w'"
  shows "agree_off a (w\<lparr>h_items := xs\<rparr>) (w'\<lparr>h_items := xs\<rparr>)"
    and "agree_off a (w\<lparr>h_items := xs, h_nextId := n\<rparr>) (w'\<lparr>h_items := xs, h_nextId := n\<rparr>)"
  using assms by (simp_all add: agree_off_def)

lemma agree_off_create:
  assumes "agree_off a w w'" and "a < next_addr w"
  shows "agree_off a (snd (create_h item w)) (snd (create_h item w'))"
proof -
  let ?f = "item(''id'' \<mapsto> Prim (PNum (h_nextId w)))"
  let ?w1 = "snd (alloc_obj ?f w)" and ?w1' = "snd (alloc_obj ?f w')"
  let ?w2 = "?w1\<lparr>h_items := h_items w @ [next_addr w], h_nextId := js_add1 (h_nextId w)\<rparr>"
  let ?w2' = "?w1'\<lparr>h_items := h_items w @ [next_addr w], h_nextId := js_add1 (h_nextId w)\<rparr>"
  from assms(1) have eqs: "h_items w' = h_items w" "h_nextId w' = h_nextId w" "next_addr w' = next_addr w"
    by (simp_all add: agree_off_def)
  have "agree_off a ?w1 ?w1'"
    using assms(1) by (rule agree_off_alloc)
  then have ag2: "agree_off a ?w2 ?w2'"
    by (rule agree_off_set_items)
  from assms(2) have "next_addr w \<noteq> a" by simp
  with ag2 have f: "fields_of ?w2' (next_addr w) = fields_of ?w2 (next_addr w)"
    by (rule agree_off_fields)
  have "agree_off a (snd (alloc_obj (fields_of ?w2 (next_addr w)) ?w2))
          (snd (alloc_obj (fields_of ?w2 (next_addr w)) ?w2'))"
    using ag2 by (rule agree_off_alloc)
  moreover have "snd (create_h item w) = snd (alloc_obj (fields_of ?w2 (next_addr w)) ?w2)"
    by (simp add: create_h_def split_beta Let_def)
  moreover have "snd (create_h item w') = snd (alloc_obj (fields_of ?w2 (next_addr w)) ?w2')"
    using f by (simp add: create_h_def split_beta Let_def eqs)
  ultimately show ?thesis by simp
qed

lemma agree_off_update:
  assumes "agree_off a w w'" and "a < next_addr w" and "a \<notin> set (h_items w)"
  shows "agree_off a (snd (update_h rid u w)) (snd (update_h rid u w'))"
proof -
  from assms(1) have eqs: "h_items w' = h_items w" "next_addr w' = next_addr w"
    by (simp_all add: agree_off_def)
  have fi: "findIndex (has_id w' rid) (h_items w) = findIndex (has_id w rid) (h_items w)"
    using assms(1,3) by (intro findIndex_cong agree_off_has_id) auto
  show ?thesis
  proof (cases "findIndex (has_id w rid) (h_items w)")
    case None
    with fi assms(1) show ?thesis by (simp add: update_h_def eqs)
  next
    case (Some i)
    let ?old = "h_items w ! i"
    from findIndex_Some [OF Some] have "?old \<in> set (h_items w)" by simp
    with assms(3) have "?old \<noteq> a" by auto
    with assms(1) have fo: "fields_of w' ?old = fields_of w ?old"
      by (rule agree_off_fields)
    let ?f = "fields_of w ?old ++ u"
    let ?w1 = "snd (alloc_obj ?f w)" and ?w1' = "snd (alloc_obj ?f w')"
    let ?w2 = "?w1\<lparr>h_items := (h_items w)[i := next_addr w]\<rparr>"
    let ?w2' = "?w1'\<lparr>h_items := (h_items w)[i := next_addr w]\<rparr>"
    have "agree_off a ?w1 ?w1'"
      using assms(1) by (rule agree_off_alloc)
    then have ag2: "agree_off a ?w2 ?w2'"
      by (rule agree_off_set_items)
    from assms(2) have "next_addr w \<noteq> a" by simp
    with ag2 have f: "fields_of ?w2' (next_addr w) = fields_of ?w2 (next_addr w)"
      by (rule agree_off_fields)
    have "agree_off a (snd (alloc_obj (fields_of ?w2 (next_addr w)) ?w2))
            (snd (alloc_obj (fields_of ?w2 (next_addr w)) ?w2'))"
      using ag2 by (rule agree_off_alloc)
    moreover have "snd (update_h rid u w) = snd (alloc_obj (fields_of ?w2 (next_addr w)) ?w2)"
      using Some by (simp add: update_h_def split_beta Let_def)
    moreover have "snd (update_h rid u w') = snd (alloc_obj (fields_of ?w2 (next_addr w)) ?w2')"
      using Some fi f by (simp add: update_h_def split_beta Let_def eqs fo)
    ultimately show ?thesis by simp
  qed
qed

lemma agree_off_delete:
  assumes "agree_off a w w'" and "a \<notin> set (h_items w)"
  shows "agree_off a (snd (delete_h rid w)) (snd (delete_h rid w'))"
proof -
  from assms(1) have eqs: "h_items w' = h_items w"
    by (simp add: agree_off_def)
  have hid: "has_id w' rid x = has_id w rid x" if "x \<in> set (h_items w)" for x
    using assms that by (intro agree_off_has_id) auto
  have "filter (\<lambda>b. \<not> has_id w' rid b) (h_items w) = filter (\<lambda>b. \<not> has_id w rid b) (h_items w)"
    by (intro filter_cong refl) (simp add: hid)
  then show ?thesis
    using assms(1) by (simp add: delete_h_def Let_def eqs agree_off_set_items)
qed

lemma agree_off_getById:
  assumes "agree_off a w w'" and "a \<notin> set (h_items w)"
  shows "agree_off a (snd (getById_h rid w)) (snd (getById_h rid w'))"
proof -
  from assms(1) have eqs: "h_items w' = h_items w"
    by (simp add: agree_off_def)
  have hid: "has_id w' rid x = has_id w rid x" if "x \<in> set (h_items w)" for x
    using assms that by (intro agree_off_has_id) auto
  have fi: "find (has_id w' rid) (h_items w) = find (has_id w rid) (h_items w)"
    by (intro find_cong refl) (simp add: hid)
  show ?thesis
  proof (cases "find (has_id w rid) (h_items w)")
    case None
    with fi assms(1) show ?thesis by (simp add: getById_h_def eqs)
  next
    case (Some x)
    then have "x \<in> set (h_items w)" by (auto simp: find_Some_iff)
    with assms(2) have "x \<noteq> a" by auto
    with assms(1) have "fields_of w' x = fields_of w x" by (rule agree_off_fields)
    with Some fi show ?thesis
      using agree_off_alloc [OF assms(1), of "fields_of w x"]
      by (simp add: getById_h_def eqs split_beta Let_def)
  qed
qed

lemma agree_off_new_Date:
  "agree_off a w w' \<Longrightarrow> agree_off a (snd (new_Date t w)) (snd (new_Date t w'))"
  by (simp add: agree_off_def new_Date_def)

lemma agree_off_obj_set_both:
  assumes "agree_off a w w'"
  shows "agree_off a (obj_set b k v w) (obj_set b k v w')"
proof (cases "b = a")
  case True
  with assms show ?thesis
    by (auto simp: agree_off_def obj_set_def split: option.splits)
next
  case False
  with assms have "objs w' b = objs w b"
    unfolding agree_off_def by blast
  with assms show ?thesis
    by (auto simp: agree_off_def obj_set_def split: option.splits)
qed

lemma agree_off_date_setTime:
  "agree_off a w w' \<Longrightarrow> agree_off a (date_setTime d t w) (date_setTime d t w')"
  by (auto simp: agree_off_def date_setTime_def split: option.splits)

lemma agree_off_step:
  assumes "agree_off a w w'" and "handed_out a w"
  shows "agree_off a (h_step op w) (h_step op w')"
proof -
  from assms(2) have a: "a < next_addr w" "a \<notin> set (h_items w)"
    by (auto simp: handed_out_def)
  show ?thesis
  proof (cases op)
    case (HCreate item)
    with assms(1) a show ?thesis by (simp add: agree_off_create)
  next
    case (HUpdate rid u)
    with assms(1) a show ?thesis by (simp add: agree_off_update)
  next
    case (HDelete rid)
    with assms(1) a show ?thesis by (simp add: agree_off_delete)
  next
    case HGetAll
    from agree_off_copy_items [OF assms(1) a(2)] assms(1) HGetAll show ?thesis
      by (simp add: getAll_h_def agree_off_items)
  next
    case (HGetById rid)
    with assms(1) a show ?thesis by (simp add: agree_off_getById)
  next
    case (HNewDate t)
    with assms(1) show ?thesis by (simp add: agree_off_new_Date)
  next
    case (HObjSet b k v)
    with assms(1) show ?thesis by (simp add: agree_off_obj_set_both)
  next
    case (HSetTime d t)
    with assms(1) show ?thesis by (simp add: agree_off_date_setTime)
  qed
qed

lemma agree_off_run:
  assumes "agree_off a w w'" and "handed_out a w"
  shows "agree_off a (run_h ops w) (run_h ops w')"
  using assms unfolding run_h_def
proof (induction ops arbitrary: w w')
  case Nil
  then show ?case by simp
next
  case (Cons op ops)
  from Cons.prems have "agree_off a (h_step op w) (h_step op w')"
    by (rule agree_off_step)
  moreover from Cons.prems(2) have "handed_out a (h_step op w)"
    by (rule handed_out_step)
  ultimately show ?case
    using Cons.IH by simp
qed

lemma isolated_after_assignment:
  assumes "handed_out a w"
  shows "seen_getAll (run_h ops (obj_set a k v w)) = seen_getAll (run_h ops w) \<and>
         seen_getById rid (run_h ops (obj_set a k v w)) = seen_getById rid (run_h ops w)"
proof -
  have "agree_off a (run_h ops w) (run_h ops (obj_set a k v w))"
    using agree_off_obj_set assms by (rule agree_off_run)
  moreover from assms have "handed_out a (run_h ops w)"
    by (rule handed_out_run)
  ultimately show ?thesis
    by (simp add: seen_getAll_agree seen_getById_agree)
qed

lemma seen_getById_eq:
  "seen_getById rid w = map_option (deep w) (find (has_id w rid) (h_items w))"
proof (cases "find (has_id w rid) (h_items w)")
  case None
  then show ?thesis by (simp add: seen_getById_def getById_h_def)
next
  case (Some x)
  have "deep (snd (alloc_obj (fields_of w x) w)) (next_addr w) = deep w x"
    by (intro deep_fields) (simp_all add: fields_of_def)
  with Some show ?thesis
    by (simp add: seen_getById_def getById_h_def split_beta Let_def)
qed

text \<open>
  C1, amended. \<open>getAll\<close> reads the fields of the stored items and \<open>getById\<close>
  those of the first stored item of that identity. What they hand out are new objects,
  none of them an object of the store, then or after any further operations. Assigning a
  field of an object that \<open>getAll\<close> or \<open>getById\<close> handed out changes nothing that a
  later \<open>getAll\<close> or \<open>getById\<close> reads, whatever operations come before the
  assignment and between the assignment and the read.
\<close>

theorem copy_isolation_of_fields:
  assumes "store_wf w"
  shows
    "seen_getAll w = map (deep w) (h_items w) \<and>
     seen_getById rid w = map_option (deep w) (find (has_id w rid) (h_items w)) \<and>
     (\<forall>a\<in>set (fst (getAll_h w)).
        next_addr w \<le> a \<and> a \<notin> set (h_items w) \<and>
        (let w2 = run_h ops (snd (getAll_h w)); w3 = obj_set a k v w2 in
           a \<notin> set (h_items w2) \<and>
           seen_getAll (run_h ops' w3) = seen_getAll (run_h ops' w2) \<and>
           seen_getById rid' (run_h ops' w3) = seen_getById rid' (run_h ops' w2))) \<and>
     (\<forall>a. fst (getById_h rid w) = Some a \<longrightarrow>
        next_addr w \<le> a \<and> a \<notin> set (h_items w) \<and>
        (let w2 = run_h ops (snd (getById_h rid w)); w3 = obj_set a k v w2 in
           a \<notin> set (h_items w2) \<and>
           seen_getAll (run_h ops' w3) = seen_getAll (run_h ops' w2) \<and>
           seen_getById rid' (run_h ops' w3) = seen_getById rid' (run_h ops' w2)))"
proof (intro conjI ballI allI impI)
  from assms show "seen_getAll w = map (deep w) (h_items w)"
    by (simp add: seen_getAll_def getAll_h_def split_beta copy_items_deep store_wf_def list_all_iff)
next
  show "seen_getById rid w = map_option (deep w) (find (has_id w rid) (h_items w))"
    by (rule seen_getById_eq)
next
  fix a assume a: "a \<in> set (fst (getAll_h w))"
  then show "next_addr w \<le> a"
    by (auto simp: getAll_h_def copy_items_addrs)
  from getAll_h_handed_out [OF assms a] show "a \<notin> set (h_items w)"
    using getAll_h_frame [of w] by (simp add: handed_out_def)
  from getAll_h_handed_out [OF assms a] have "handed_out a (run_h ops (snd (getAll_h w)))"
    by (rule handed_out_run)
  then show "let w2 = run_h ops (snd (getAll_h w)); w3 = obj_set a k v w2 in
           a \<notin> set (h_items w2) \<and>
           seen_getAll (run_h ops' w3) = seen_getAll (run_h ops' w2) \<and>
           seen_getById rid' (run_h ops' w3) = seen_getById rid' (run_h ops' w2)"
    using isolated_after_assignment [of a "run_h ops (snd (getAll_h w))" ops' k v rid']
    by (simp add: Let_def handed_out_def)
next
  fix a assume a: "fst (getById_h rid w) = Some a"
  then show "next_addr w \<le> a"
    by (auto simp: getById_h_def split_beta Let_def split: option.splits)
  from getById_h_handed_out [OF assms a] show "a \<notin> set (h_items w)"
    using getById_h_frame [of rid w] by (simp add: handed_out_def)
  from getById_h_handed_out [OF assms a] have "handed_out a (run_h ops (snd (getById_h rid w)))"
    by (rule handed_out_run)
  then show "let w2 = run_h ops (snd (getById_h rid w)); w3 = obj_set a k v w2 in
           a \<notin> set (h_items w2) \<and>
           seen_getAll (run_h ops' w3) = seen_getAll (run_h ops' w2) \<and>
           seen_getById rid' (run_h ops' w3) = seen_getById rid' (run_h ops' w2)"
    using isolated_after_assignment [of a "run_h ops (snd (getById_h rid w))" ops' k v rid']
    by (simp add: Let_def handed_out_def)
qed

lemma milk_world_eq:
  "milk_world =
     \<lparr>objs = [1 \<mapsto> milk_fields(''id'' \<mapsto> Prim (PNum (Fin 1))),
              2 \<mapsto> milk_fields(''id'' \<mapsto> Prim (PNum (Fin 1)))],
      dates = [0 \<mapsto> 1000], next_addr = 3, h_items = [1], h_nextId = Fin 2\<rparr>"
  by (simp add: milk_world_def create_h_def new_Date_def world0_def alloc_obj_def fields_of_def
      Let_def eval_nat_numeral round_add1_def two53_def)

lemma milk_getById:
  "getById_h (Fin 1) milk_world =
     (Some 3, milk_world\<lparr>objs := (objs milk_world)(3 \<mapsto> milk_fields(''id'' \<mapsto> Prim (PNum (Fin 1)))),
                          next_addr := 4\<rparr>)"
  by (simp add: milk_world_eq getById_h_def has_id_def fields_of_def alloc_obj_def eval_nat_numeral)

text \<open>
  C1 as stated fails for a change made inside a date: the copy that \<open>getById\<close> hands
  out refers to the same \<open>Date\<close> object as the stored task, and \<open>setTime\<close> on it
  through the copy changes what the next \<open>getById\<close> reads.
\<close>

theorem shared_date_counterexample:
  "fst (getById_h (Fin 1) milk_world) = Some 3 \<and>
   seen_field (Fin 1) ''createdAt'' (snd (getById_h (Fin 1) milk_world)) = Some (SDate (Some 1000)) \<and>
   seen_field (Fin 1) ''createdAt''
      (field_setTime 3 ''createdAt'' 0 (snd (getById_h (Fin 1) milk_world)))
     = Some (SDate (Some 0))"
  by (simp add: milk_getById milk_world_eq milk_fields_def seen_field_def seen_getById_def
      getById_h_def has_id_def fields_of_def alloc_obj_def field_setTime_def date_setTime_def
      deep_def resolve_def eval_nat_numeral)

theorem copy_isolation_of_fields_witness:
  "store_wf milk_world \<and>
   fst (getById_h (Fin 1) milk_world) = Some 3 \<and>
   seen_field (Fin 1) ''text'' (snd (getById_h (Fin 1) milk_world)) = Some (SPrim (PStr ''Buy milk'')) \<and>
   seen_field (Fin 1) ''text''
      (run_h [HDelete (Fin 9)]
         (obj_set 3 ''text'' (Prim (PStr ''Sell milk'')) (snd (getById_h (Fin 1) milk_world))))
     = Some (SPrim (PStr ''Buy milk''))"
proof -
  have h: "store_wf milk_world"
    by (simp add: store_wf_def milk_world_eq)
  show ?thesis
    using h copy_isolation_of_fields [OF h, where rid = "Fin 1" and ops = "[]"
        and ops' = "[HDelete (Fin 9)]" and k = "''text''" and v = "Prim (PStr ''Sell milk'')"
        and rid' = "Fin 1"]
    by (simp add: milk_getById milk_world_eq milk_fields_def seen_field_def seen_getById_def
        getById_h_def delete_h_def has_id_def fields_of_def alloc_obj_def obj_set_def
        deep_def resolve_def run_h_def Let_def eval_nat_numeral)
qed

subsection \<open>Update over the heap\<close>

lemma update_h_absent:
  "find (has_id w rid) (h_items w) = None \<Longrightarrow> update_h rid upd w = (None, w)"
proof -
  assume "find (has_id w rid) (h_items w) = None"
  then have "findIndex (has_id w rid) (h_items w) = None"
    by (simp add: findIndex_None find_None_iff)
  then show ?thesis by (simp add: update_h_def)
qed

lemma update_h_present:
  assumes "findIndex (has_id w rid) (h_items w) = Some i"
  shows "fst (update_h rid upd w) = Some (Suc (next_addr w)) \<and>
         h_items (snd (update_h rid upd w)) = (h_items w)[i := next_addr w] \<and>
         next_addr (snd (update_h rid upd w)) = Suc (Suc (next_addr w)) \<and>
         dates (snd (update_h rid upd w)) = dates w \<and>
         objs (snd (update_h rid upd w)) =
           (objs w)(next_addr w \<mapsto> fields_of w (h_items w ! i) ++ upd,
                    Suc (next_addr w) \<mapsto> fields_of w (h_items w ! i) ++ upd)"
  using assms by (simp add: update_h_def alloc_obj_def fields_of_def Let_def)

lemma update_h_copy:
  assumes wf: "store_wf w" and old: "find (has_id w rid) (h_items w) = Some old"
  shows "let (res, w') = update_h rid upd w in
     \<exists>c merged i. res = Some c \<and>
        i < length (h_items w) \<and> h_items w ! i = old \<and> h_items w' = (h_items w)[i := merged] \<and>
        next_addr w \<le> merged \<and> next_addr w \<le> c \<and> c \<noteq> merged \<and> c \<notin> set (h_items w') \<and>
        fields_of w' merged = fields_of w old ++ upd \<and>
        fields_of w' c = fields_of w old ++ upd \<and>
        (\<forall>b < next_addr w. objs w' b = objs w b) \<and> dates w' = dates w \<and>
        (''id'' \<notin> dom upd \<longrightarrow> seen_getById rid w' = Some (deep w' merged)) \<and>
        seen_getAll (run_h ops (obj_set c k v w')) = seen_getAll (run_h ops w') \<and>
        seen_getById rid' (run_h ops (obj_set c k v w')) = seen_getById rid' (run_h ops w')"
proof -
  let ?w' = "snd (update_h rid upd w)"
  let ?n = "next_addr w"
  from find_Some_findIndex [OF old] obtain i where
    i: "findIndex (has_id w rid) (h_items w) = Some i" "h_items w ! i = old"
    by blast
  from findIndex_Some [OF i(1)] i(2) have il: "i < length (h_items w)" and hid: "has_id w rid old"
    by auto
  from wf have below: "\<forall>b\<in>set (h_items w). b < ?n"
    by (simp add: store_wf_def list_all_iff)
  note up = update_h_present [OF i(1), of upd, unfolded i(2)]
  from up have res: "fst (update_h rid upd w) = Some (Suc ?n)"
    and its: "h_items ?w' = (h_items w)[i := ?n]"
    and nx: "next_addr ?w' = Suc (Suc ?n)"
    and dt: "dates ?w' = dates w"
    and ob: "objs ?w' = (objs w)(?n \<mapsto> fields_of w old ++ upd, Suc ?n \<mapsto> fields_of w old ++ upd)"
    by simp_all
  have fm: "fields_of ?w' ?n = fields_of w old ++ upd"
    and fc: "fields_of ?w' (Suc ?n) = fields_of w old ++ upd"
    by (simp_all add: fields_of_def ob)
  have keep: "\<forall>b < ?n. objs ?w' b = objs w b"
    by (simp add: ob)
  have sub: "set (h_items ?w') \<subseteq> insert ?n (set (h_items w))"
    unfolding its by (rule set_update_subset_insert)
  with below have cn: "Suc ?n \<notin> set (h_items ?w')"
    by fastforce
  from sub below have wf': "store_wf ?w'"
    by (fastforce simp: store_wf_def list_all_iff nx)
  with cn have ho: "handed_out (Suc ?n) ?w'"
    by (simp add: handed_out_def nx)
  have seen: "seen_getById rid ?w' = Some (deep ?w' ?n)" if "''id'' \<notin> dom upd"
  proof -
    have same: "has_id ?w' rid x = has_id w rid x" if "x \<in> set (h_items w)" for x
    proof -
      from that below have "x < ?n" by simp
      with keep have "objs ?w' x = objs w x" by simp
      then have "fields_of ?w' x = fields_of w x" by (rule fields_of_cong)
      then show ?thesis by (simp add: has_id_def)
    qed
    then have fi: "findIndex (has_id ?w' rid) (h_items w) = Some i"
      using i(1) findIndex_cong [of "h_items w" "has_id ?w' rid" "has_id w rid"] by simp
    from \<open>''id'' \<notin> dom upd\<close> have "(fields_of w old ++ upd) ''id'' = fields_of w old ''id''"
      by (simp add: map_add_dom_app_simps)
    with hid have "has_id ?w' rid ?n"
      by (simp add: has_id_def fm)
    with fi have "find (has_id ?w' rid) ((h_items w)[i := ?n]) = Some ?n"
      by (rule find_update_same)
    then show ?thesis
      by (simp add: seen_getById_eq its)
  qed
  from isolated_after_assignment [OF ho, of ops k v rid'] have iso:
    "seen_getAll (run_h ops (obj_set (Suc ?n) k v ?w')) = seen_getAll (run_h ops ?w')"
    "seen_getById rid' (run_h ops (obj_set (Suc ?n) k v ?w')) = seen_getById rid' (run_h ops ?w')"
    by simp_all
  have "\<exists>c merged j. fst (update_h rid upd w) = Some c \<and>
        j < length (h_items w) \<and> h_items w ! j = old \<and> h_items ?w' = (h_items w)[j := merged] \<and>
        ?n \<le> merged \<and> ?n \<le> c \<and> c \<noteq> merged \<and> c \<notin> set (h_items ?w') \<and>
        fields_of ?w' merged = fields_of w old ++ upd \<and>
        fields_of ?w' c = fields_of w old ++ upd \<and>
        (\<forall>b < ?n. objs ?w' b = objs w b) \<and> dates ?w' = dates w \<and>
        (''id'' \<notin> dom upd \<longrightarrow> seen_getById rid ?w' = Some (deep ?w' merged)) \<and>
        seen_getAll (run_h ops (obj_set c k v ?w')) = seen_getAll (run_h ops ?w') \<and>
        seen_getById rid' (run_h ops (obj_set c k v ?w')) = seen_getById rid' (run_h ops ?w')"
    using res il i(2) its cn fm fc keep dt seen iso
    by (intro exI [of _ "Suc ?n"] exI [of _ ?n] exI [of _ i]) simp
  then show ?thesis
    by (simp add: split_beta)
qed

text \<open>
  C4. \<open>update\<close> of an identity that is absent returns \<open>undefined\<close> and leaves the
  store as it is. For a present one, the stored item becomes the old item with the fields
  present in the update replaced and every other field unchanged; that item is returned,
  and \<open>getById\<close> returns it afterwards. Items with another identity are not changed.
  On the heap: the merge goes into a new object that takes the old item's place in the
  store, no object that existed before is written to, and what is returned is another
  new object with the merged fields, which the store does not hold: assigning a field of
  it changes nothing that is read afterwards.
\<close>

theorem update_frame:
  "(\<not> exists_id rid repo \<longrightarrow>
      getById rid repo = None \<and> update spread_todo rid u repo = (None, repo)) \<and>
   (\<forall>old. getById rid repo = Some old \<longrightarrow>
      (let (res, repo') = update spread_todo rid u repo; new = spread_todo old u
       in res = Some new \<and> getById rid repo' = Some new \<and>
          item_id new = rid \<and>
          todo_text new = (case p_text u of None \<Rightarrow> todo_text old | Some v \<Rightarrow> v) \<and>
          status new = (case p_status u of None \<Rightarrow> status old | Some v \<Rightarrow> v) \<and>
          createdAt new = (case p_createdAt u of None \<Rightarrow> createdAt old | Some v \<Rightarrow> v) \<and>
          updatedAt new = (case p_updatedAt u of None \<Rightarrow> updatedAt old | Some v \<Rightarrow> v) \<and>
          dueDate new = (case p_dueDate u of None \<Rightarrow> dueDate old | Some v \<Rightarrow> v) \<and>
          priority new = (case p_priority u of None \<Rightarrow> priority old | Some v \<Rightarrow> v))) \<and>
   (\<forall>other. other \<noteq> rid \<longrightarrow>
      getById other (snd (update spread_todo rid u repo)) = getById other repo) \<and>
   (find (has_id w rid) (h_items w) = None \<longrightarrow> update_h rid upd w = (None, w)) \<and>
   (\<forall>old. store_wf w \<and> find (has_id w rid) (h_items w) = Some old \<longrightarrow>
      (let (res, w') = update_h rid upd w in
         \<exists>c merged i. res = Some c \<and>
            i < length (h_items w) \<and> h_items w ! i = old \<and>
            h_items w' = (h_items w)[i := merged] \<and>
            next_addr w \<le> merged \<and> next_addr w \<le> c \<and> c \<noteq> merged \<and> c \<notin> set (h_items w') \<and>
            fields_of w' merged = fields_of w old ++ upd \<and>
            fields_of w' c = fields_of w old ++ upd \<and>
            (\<forall>b < next_addr w. objs w' b = objs w b) \<and> dates w' = dates w \<and>
            (''id'' \<notin> dom upd \<longrightarrow> seen_getById rid w' = Some (deep w' merged)) \<and>
            seen_getAll (run_h ops (obj_set c k v w')) = seen_getAll (run_h ops w') \<and>
            seen_getById rid' (run_h ops (obj_set c k v w')) = seen_getById rid' (run_h ops w')))"
proof (intro conjI allI impI)
  assume "\<not> exists_id rid repo"
  then show "getById rid repo = None" by (rule getById_absent)
next
  assume "\<not> exists_id rid repo"
  then show "update spread_todo rid u repo = (None, repo)" by (rule update_absent)
next
  fix old assume old: "getById rid repo = Some old"
  from update_present [OF old, of spread_todo u] getById_after_update [OF old, of u]
  show "let (res, repo') = update spread_todo rid u repo; new = spread_todo old u
       in res = Some new \<and> getById rid repo' = Some new \<and>
          item_id new = rid \<and>
          todo_text new = (case p_text u of None \<Rightarrow> todo_text old | Some v \<Rightarrow> v) \<and>
          status new = (case p_status u of None \<Rightarrow> status old | Some v \<Rightarrow> v) \<and>
          createdAt new = (case p_createdAt u of None \<Rightarrow> createdAt old | Some v \<Rightarrow> v) \<and>
          updatedAt new = (case p_updatedAt u of None \<Rightarrow> updatedAt old | Some v \<Rightarrow> v) \<and>
          dueDate new = (case p_dueDate u of None \<Rightarrow> dueDate old | Some v \<Rightarrow> v) \<and>
          priority new = (case p_priority u of None \<Rightarrow> priority old | Some v \<Rightarrow> v)"
    by (auto simp: Let_def spread_todo_def)
next
  fix other :: number assume "other \<noteq> rid"
  then show "getById other (snd (update spread_todo rid u repo)) = getById other repo"
    by (rule getById_other_after_update)
next
  assume "find (has_id w rid) (h_items w) = None"
  then show "update_h rid upd w = (None, w)" by (rule update_h_absent)
next
  fix old assume "store_wf w \<and> find (has_id w rid) (h_items w) = Some old"
  then show "let (res, w') = update_h rid upd w in
         \<exists>c merged i. res = Some c \<and>
            i < length (h_items w) \<and> h_items w ! i = old \<and>
            h_items w' = (h_items w)[i := merged] \<and>
            next_addr w \<le> merged \<and> next_addr w \<le> c \<and> c \<noteq> merged \<and> c \<notin> set (h_items w') \<and>
            fields_of w' merged = fields_of w old ++ upd \<and>
            fields_of w' c = fields_of w old ++ upd \<and>
            (\<forall>b < next_addr w. objs w' b = objs w b) \<and> dates w' = dates w \<and>
            (''id'' \<notin> dom upd \<longrightarrow> seen_getById rid w' = Some (deep w' merged)) \<and>
            seen_getAll (run_h ops (obj_set c k v w')) = seen_getAll (run_h ops w') \<and>
            seen_getById rid' (run_h ops (obj_set c k v w')) = seen_getById rid' (run_h ops w')"
    using update_h_copy [of w rid old upd ops k v rid'] by blast
qed

theorem update_frame_witness:
  "getById (Fin 3) \<lparr>items = [buy_milk\<lparr>item_id := Fin 3\<rparr>, buy_milk\<lparr>item_id := Fin 7\<rparr>], nextId = Fin 8\<rparr>
     = Some (buy_milk\<lparr>item_id := Fin 3\<rparr>) \<and>
   update spread_todo (Fin 3)
       \<lparr>p_text = None, p_status = Some Completed, p_createdAt = None, p_updatedAt = Some (Date 2000),
        p_dueDate = None, p_priority = None\<rparr>
       \<lparr>items = [buy_milk\<lparr>item_id := Fin 3\<rparr>, buy_milk\<lparr>item_id := Fin 7\<rparr>], nextId = Fin 8\<rparr>
     = (Some (buy_milk\<lparr>item_id := Fin 3, status := Completed, updatedAt := Date 2000\<rparr>),
        \<lparr>items = [buy_milk\<lparr>item_id := Fin 3, status := Completed, updatedAt := Date 2000\<rparr>,
                  buy_milk\<lparr>item_id := Fin 7\<rparr>], nextId = Fin 8\<rparr>) \<and>
   update spread_todo (Fin 5)
       \<lparr>p_text = None, p_status = Some Completed, p_createdAt = None, p_updatedAt = Some (Date 2000),
        p_dueDate = None, p_priority = None\<rparr>
       \<lparr>items = [buy_milk\<lparr>item_id := Fin 3\<rparr>, buy_milk\<lparr>item_id := Fin 7\<rparr>], nextId = Fin 8\<rparr>
     = (None, \<lparr>items = [buy_milk\<lparr>item_id := Fin 3\<rparr>, buy_milk\<lparr>item_id := Fin 7\<rparr>], nextId = Fin 8\<rparr>) \<and>
   store_wf milk_world \<and>
   find (has_id milk_world (Fin 1)) (h_items milk_world) = Some 1 \<and>
   fst (update_h (Fin 1) [''text'' \<mapsto> Prim (PStr ''Sell milk'')] milk_world) = Some 4 \<and>
   h_items (snd (update_h (Fin 1) [''text'' \<mapsto> Prim (PStr ''Sell milk'')] milk_world)) = [3] \<and>
   seen_field (Fin 1) ''text'' (snd (update_h (Fin 1) [''text'' \<mapsto> Prim (PStr ''Sell milk'')] milk_world))
     = Some (SPrim (PStr ''Sell milk'')) \<and>
   seen_field (Fin 1) ''text''
      (obj_set 4 ''text'' (Prim (PStr ''Drink milk''))
         (snd (update_h (Fin 1) [''text'' \<mapsto> Prim (PStr ''Sell milk'')] milk_world)))
     = Some (SPrim (PStr ''Sell milk''))"
proof -
  have h: "store_wf milk_world \<and> find (has_id milk_world (Fin 1)) (h_items milk_world) = Some 1"
    by (simp add: store_wf_def milk_world_eq has_id_def fields_of_def)
  show ?thesis
    using h
      update_frame [where rid = "Fin 3"
        and repo = "\<lparr>items = [buy_milk\<lparr>item_id := Fin 3\<rparr>, buy_milk\<lparr>item_id := Fin 7\<rparr>], nextId = Fin 8\<rparr>"
        and u = "\<lparr>p_text = None, p_status = Some Completed, p_createdAt = None,
                  p_updatedAt = Some (Date 2000), p_dueDate = None, p_priority = None\<rparr>"
        and w = world0 and upd = Map.empty and ops = "[]" and k = "''text''"
        and v = "Prim PNull" and rid' = "Fin 1"]
      update_frame [where rid = "Fin 1"
        and repo = "\<lparr>items = [buy_milk\<lparr>item_id := Fin 3\<rparr>, buy_milk\<lparr>item_id := Fin 7\<rparr>], nextId = Fin 8\<rparr>"
        and u = "\<lparr>p_text = None, p_status = Some Completed, p_createdAt = None,
                  p_updatedAt = Some (Date 2000), p_dueDate = None, p_priority = None\<rparr>"
        and w = milk_world and upd = "[''text'' \<mapsto> Prim (PStr ''Sell milk'')]" and ops = "[]"
        and k = "''text''" and v = "Prim (PStr ''Drink milk'')" and rid' = "Fin 1"]
    by (simp add: getById_def update_def Let_def spread_todo_def buy_milk_def
        milk_world_eq milk_fields_def seen_field_def seen_getById_def
        getById_h_def update_h_def has_id_def fields_of_def alloc_obj_def obj_set_def
        deep_def resolve_def run_h_def eval_nat_numeral)
qed

end
